theory Spec2Isabelle
  imports Main "HOL-Library.Word" "HOL-Library.Stream"
begin

unbundle bit_operations_syntax

section \<open>The KL-G2 printer utility (klg2.c)\<close>

text \<open>
  A shallow embedding of \<^verbatim>\<open>klg2.c\<close>. Bytes are 8-bit words. The process state (the
  global variables of the C file, the standard input and the USB link) is one record that
  every function takes and returns. A call either returns a value (\<open>Inr\<close>) or halts the
  process (\<open>Inl\<close>): \<^verbatim>\<open>abort()\<close>, a bulk transfer that never completes, or an access
  outside an array.
\<close>

type_synonym u8 = "8 word"

subsection \<open>Constants and enumerations\<close>

definition KLG2_EPSIZE :: nat where
  "KLG2_EPSIZE = 0x40"

datatype EPSIZE_T = EPSIZE_1 | EPSIZE_16 | EPSIZE_64

fun epsize_val :: "EPSIZE_T \<Rightarrow> nat" where
  "epsize_val EPSIZE_1 = 1"
| "epsize_val EPSIZE_16 = 16"
| "epsize_val EPSIZE_64 = 64"

datatype TAPECODE_T =
  TAPECODE_NOTAPE | TAPECODE_6MM | TAPECODE_9MM | TAPECODE_12MM | TAPECODE_18MM | TAPECODE_24MM

fun tapecode_val :: "TAPECODE_T \<Rightarrow> nat" where
  "tapecode_val TAPECODE_NOTAPE = 0x0000"
| "tapecode_val TAPECODE_6MM = 0x8100"
| "tapecode_val TAPECODE_9MM = 0x8500"
| "tapecode_val TAPECODE_12MM = 0x8303"
| "tapecode_val TAPECODE_18MM = 0x8703"
| "tapecode_val TAPECODE_24MM = 0x8603"

datatype MARGINCODE_T = MARGINCODE_SMALL | MARGINCODE_MEDIUM | MARGINCODE_LARGE | MARGINCODE_NOFEED

fun margincode_val :: "MARGINCODE_T \<Rightarrow> nat" where
  "margincode_val MARGINCODE_SMALL = 0x40"
| "margincode_val MARGINCODE_MEDIUM = 0x80"
| "margincode_val MARGINCODE_LARGE = 0x02"
| "margincode_val MARGINCODE_NOFEED = 0x01"

datatype DENSITYCODE_T =
  DENSITYCODE_1 | DENSITYCODE_2 | DENSITYCODE_3 | DENSITYCODE_4 | DENSITYCODE_5

fun densitycode_val :: "DENSITYCODE_T \<Rightarrow> nat" where
  "densitycode_val DENSITYCODE_1 = 0xFE"
| "densitycode_val DENSITYCODE_2 = 0xFF"
| "densitycode_val DENSITYCODE_3 = 0x00"
| "densitycode_val DENSITYCODE_4 = 0x01"
| "densitycode_val DENSITYCODE_5 = 0x02"

datatype CUTTERCODE_T = CUTTERCODE_FULLCUT | CUTTERCODE_HALFCUT | CUTTERCODE_NOCUT

fun cuttercode_val :: "CUTTERCODE_T \<Rightarrow> nat" where
  "cuttercode_val CUTTERCODE_FULLCUT = 0x00"
| "cuttercode_val CUTTERCODE_HALFCUT = 1"
| "cuttercode_val CUTTERCODE_NOCUT = 0xFF"

datatype OPERMODE_T = OPERATION_PRINT | OPERATION_FEED | OPERATION_CUT | OPERATION_HALFCUT

definition PRINTER_ACK :: u8 where
  "PRINTER_ACK = 0x06"

definition PRINTER_STX :: u8 where
  "PRINTER_STX = 0x02"

definition IMAGE_ROWS :: nat where
  "IMAGE_ROWS = 128"

subsection \<open>Process state\<close>

text \<open>
  \<open>wire\<close> logs every buffer handed to \<^verbatim>\<open>libusb_bulk_transfer\<close> on the OUT endpoint,
  oldest first. \<open>usb_out\<close> and \<open>usb_in\<close> are what the USB stack answers to the successive
  OUT and IN transfers: \<open>None\<close> is a transfer that never completes (the timeout is 0,
  unlimited); for an OUT transfer the return code and the transferred count, as a function
  of the requested length; for an IN transfer the return code and the bytes received.
  \<open>fin\<close> is the standard input: the bytes not yet read, a finite file.
  The remaining fields are the global variables of the C file. The diagnostics written to
  the error stream, and \<^verbatim>\<open>dump_comm\<close> with them, are left out.
\<close>

record world =
  wire :: "u8 list list"
  usb_out :: "(nat \<Rightarrow> int \<times> nat) option stream"
  usb_in :: "(int \<times> u8 list) option stream"
  fin :: "u8 list"
  opt_density :: DENSITYCODE_T
  opt_margin :: MARGINCODE_T
  opt_tape :: TAPECODE_T
  opt_cutter :: CUTTERCODE_T
  opt_operation :: OPERMODE_T
  image_w :: nat
  image_stripes :: "u8 list list"
  pattern_size :: nat
  pattern :: "u8 list"

text \<open>
  The ways a run does not return to its caller: the four calls of \<^verbatim>\<open>abort\<close>, a transfer
  that never completes, an access outside an array, a loop that never ends, and a
  conversion of \<^verbatim>\<open>fscanf\<close> whose value does not fit its object.
\<close>

datatype halt =
    Abort_receive int
  | Abort_send int
  | Abort_too_large nat
  | Abort_incomplete nat nat
  | Blocked
  | Out_of_bounds nat
  | Endless_loop
  | Unrepresentable nat

type_synonym 'a run = "world \<Rightarrow> (halt + 'a) \<times> world"

definition ret :: "'a \<Rightarrow> 'a run" where
  "ret x s = (Inr x, s)"

definition andthen :: "'a run \<Rightarrow> ('a \<Rightarrow> 'b run) \<Rightarrow> 'b run" where
  "andthen m f s = (case m s of (Inl h, s') \<Rightarrow> (Inl h, s') | (Inr x, s') \<Rightarrow> f x s')"

definition halt_with :: "halt \<Rightarrow> 'a run" where
  "halt_with h s = (Inl h, s)"

subsection \<open>Frames\<close>

text \<open>
  \<^verbatim>\<open>recv_from_printer\<close> returns the count of bytes received and stores them in the
  caller's buffer; the model returns the bytes, their count being the length.
\<close>

definition recv_from_printer :: "u8 list run" where
  "recv_from_printer s =
     (case shd (usb_in s) of
        None \<Rightarrow> (Inl Blocked, s)
      | Some (rc, d) \<Rightarrow>
          let s' = s\<lparr>usb_in := stl (usb_in s)\<rparr>
          in if rc \<noteq> 0 then (Inl (Abort_receive rc), s') else (Inr (take KLG2_EPSIZE d), s'))"

definition send_to_printer :: "u8 list \<Rightarrow> nat \<Rightarrow> EPSIZE_T \<Rightarrow> int run" where
  "send_to_printer d cnt epsize s =
     (if cnt > epsize_val epsize then (Inl (Abort_too_large cnt), s)
      else if length d < cnt then (Inl (Out_of_bounds (length d)), s)
      else
        let out = take cnt d @ replicate (KLG2_EPSIZE - cnt) 0;
            s1 = s\<lparr>wire := wire s @ [take (epsize_val epsize) out]\<rparr>
        in case shd (usb_out s1) of
             None \<Rightarrow> (Inl Blocked, s1)
           | Some f \<Rightarrow>
               let rc = fst (f (epsize_val epsize));
                   txcnt = snd (f (epsize_val epsize));
                   s2 = s1\<lparr>usb_out := stl (usb_out s1)\<rparr>
               in if rc \<noteq> 0 then (Inl (Abort_send rc), s2)
                  else if txcnt \<noteq> epsize_val epsize
                    then (Inl (Abort_incomplete txcnt (epsize_val epsize)), s2)
                  else (Inr (int txcnt), s2))"

subsection \<open>Commands\<close>

definition printer_check_status :: "int run" where
  "printer_check_status =
     andthen (send_to_printer [PRINTER_STX, 0x1D] 2 EPSIZE_16) (\<lambda>_.
     andthen recv_from_printer (\<lambda>rsp.
       if length rsp \<noteq> 6 then ret 1
       else if rsp ! 0 \<noteq> PRINTER_STX \<or> rsp ! 1 \<noteq> 0x80 \<or> rsp ! 2 \<noteq> 0x02 \<or>
               rsp ! 3 \<noteq> 0x00 \<or> rsp ! 4 \<noteq> 0x00 \<or> rsp ! 5 \<noteq> 0xa6 then ret 1
       else ret 0))"

definition printer_recv_ack :: "int run" where
  "printer_recv_ack =
     andthen recv_from_printer (\<lambda>rsp.
       if length rsp \<noteq> 1 \<or> rsp ! 0 \<noteq> PRINTER_ACK then ret 1 else ret 0)"

definition printer_reset :: "int run" where
  "printer_reset =
     andthen (send_to_printer [0x02, 0x01] 2 EPSIZE_16) (\<lambda>_. printer_recv_ack)"

definition printer_tape_cut :: "int run" where
  "printer_tape_cut =
     andthen (send_to_printer [0x08] 1 EPSIZE_1) (\<lambda>_. printer_recv_ack)"

definition printer_tape_halfcut :: "int run" where
  "printer_tape_halfcut =
     andthen (send_to_printer [0x09] 1 EPSIZE_1) (\<lambda>_. printer_recv_ack)"

definition printer_tape_feed :: "int run" where
  "printer_tape_feed =
     andthen (send_to_printer [0x0A] 1 EPSIZE_1) (\<lambda>_. printer_recv_ack)"

definition printer_cancel_job :: "int run" where
  "printer_cancel_job =
     andthen (send_to_printer [0x18] 1 EPSIZE_1) (\<lambda>_. ret 0)"

definition printer_prejob :: "int run" where
  "printer_prejob =
     andthen (send_to_printer [PRINTER_STX, 0x02, 0x04, 0x00, 0x00, 0x09, 0x09, 0x01] 8 EPSIZE_16)
       (\<lambda>_.
     andthen printer_recv_ack (\<lambda>a.
       if a \<noteq> 0 then ret 1
       else
         andthen (send_to_printer [PRINTER_STX, 0x82] 2 EPSIZE_16) (\<lambda>_.
         andthen recv_from_printer (\<lambda>rsp.
           if length rsp \<noteq> 5 then ret 1
           else if rsp ! 0 \<noteq> PRINTER_STX \<or> rsp ! 1 \<noteq> 0x80 \<or> rsp ! 2 \<noteq> 0x01 \<or>
                   rsp ! 3 \<noteq> 0x00 \<or> rsp ! 4 \<noteq> 0x01 then ret 1
           else ret 0))))"

definition printer_set_speed :: "int run" where
  "printer_set_speed =
     andthen (send_to_printer [PRINTER_STX, 0x1C, 0x01, 0x00, 0x00] 5 EPSIZE_16)
       (\<lambda>_. printer_recv_ack)"

definition printer_check_tape :: "TAPECODE_T \<Rightarrow> int run" where
  "printer_check_tape tapeid =
     (let mtc = [PRINTER_STX, 0x17, 0x02, 0x00, 0x00, 0x00];
          mtc = mtc[4 := of_nat (drop_bit 8 (tapecode_val tapeid))];
          mtc = mtc[5 := of_nat (tapecode_val tapeid AND 0xFF)]
      in andthen (send_to_printer mtc 6 EPSIZE_16) (\<lambda>_. printer_recv_ack))"

definition printer_set_margin :: "MARGINCODE_T \<Rightarrow> int run" where
  "printer_set_margin marginid =
     (let afs = [PRINTER_STX, 0x0d, 0x01, 0x00, 0x00];
          afs = afs[4 := of_nat (margincode_val marginid)]
      in andthen (send_to_printer afs 5 EPSIZE_16) (\<lambda>_. printer_recv_ack))"

definition printer_set_density :: "DENSITYCODE_T \<Rightarrow> int run" where
  "printer_set_density densityid =
     (let dms = [PRINTER_STX, 0x09, 0x06, 0x00, 0x00, 0x00, 0x01, 0x00, 0x00, 0x00];
          dms = dms[8 := of_nat (densitycode_val densityid)]
      in andthen (send_to_printer dms 10 EPSIZE_16) (\<lambda>_. printer_recv_ack))"

definition printer_set_cutter :: "CUTTERCODE_T \<Rightarrow> int run" where
  "printer_set_cutter cutterid =
     (let cms = [PRINTER_STX, 0x19, 0x01, 0x00, 0x00];
          cms = cms[4 := of_nat (cuttercode_val cutterid)]
      in andthen (send_to_printer cms 5 EPSIZE_16) (\<lambda>_. printer_recv_ack))"

text \<open>The tape found is stored through the pointer argument; the model returns it with the code.\<close>

definition printer_get_tape :: "(int \<times> TAPECODE_T) run" where
  "printer_get_tape =
     andthen (send_to_printer [PRINTER_STX, 0x1A] 2 EPSIZE_16) (\<lambda>_.
     andthen recv_from_printer (\<lambda>rsp.
       if length rsp = 5 then
         ret (0, if rsp ! 4 = 0x81 then TAPECODE_6MM
                 else if rsp ! 4 = 0x85 then TAPECODE_9MM
                 else if rsp ! 4 = 0x83 then TAPECODE_12MM
                 else if rsp ! 4 = 0x87 then TAPECODE_18MM
                 else if rsp ! 4 = 0x86 then TAPECODE_24MM
                 else TAPECODE_NOTAPE)
       else ret (1, TAPECODE_NOTAPE)))"

definition printer_prefeed_tape :: "u8 \<Rightarrow> int run" where
  "printer_prefeed_tape amount =
     (let feed = [PRINTER_STX, 0x1B, 0x01, 0x00, 0x00];
          feed = feed[4 := amount]
      in andthen (send_to_printer feed 5 EPSIZE_16) (\<lambda>_. printer_recv_ack))"

definition printer_raster_end :: "int run" where
  "printer_raster_end =
     andthen (send_to_printer [PRINTER_STX, 0x04] 2 EPSIZE_16) (\<lambda>_. printer_recv_ack)"

definition printer_print_page :: "int run" where
  "printer_print_page =
     andthen (send_to_printer [0x0C] 1 EPSIZE_1) (\<lambda>_. printer_recv_ack)"

text \<open>
  \<^verbatim>\<open>printer_raster_block\<close> writes the four header bytes into the caller's array and
  sends its first \<^verbatim>\<open>blksize+4\<close> bytes. \<^verbatim>\<open>blksize\<close> is a \<^verbatim>\<open>uint8_t\<close>, and so is the
  count that \<^verbatim>\<open>send_to_printer\<close> takes: the sum is reduced modulo 256.
\<close>

definition raster_header :: "u8 list \<Rightarrow> nat \<Rightarrow> u8 list" where
  "raster_header blk blksize = blk[0 := PRINTER_STX, 1 := 0xFE, 2 := of_nat blksize, 3 := 0]"

definition printer_raster_block :: "u8 list \<Rightarrow> nat \<Rightarrow> int run" where
  "printer_raster_block blk blksize =
     andthen (send_to_printer (raster_header blk blksize) ((blksize + 4) mod 256) EPSIZE_64)
       (\<lambda>_. printer_recv_ack)"


subsection \<open>Raster data\<close>

text \<open>
  The local variables of \<^verbatim>\<open>printer_send_raster\<close>. The three counters are \<^verbatim>\<open>unsigned\<close>;
  none of them grows beyond \<open>max rawsize 1\<close>, so they are natural numbers here. The array
  \<^verbatim>\<open>block\<close> is not initialised in C; every byte of it is written before it is sent.
\<close>

record raster =
  sent_size :: nat
  page_size :: nat
  block_size :: nat
  block :: "u8 list"

text \<open>Lines 483 to 497: the branch that sends the pending block.\<close>

definition raster_flush :: "nat \<Rightarrow> raster \<Rightarrow> (int option \<times> raster) run" where
  "raster_flush rawsize r0 =
     andthen (printer_raster_block (block r0) (block_size r0 mod 256)) (\<lambda>rc.
       let r = r0\<lparr>block := raster_header (block r0) (block_size r0 mod 256)\<rparr>
       in if rc \<noteq> 0 then ret (Some 1, r)
          else
            let r = r\<lparr>block_size := 0\<rparr>
            in andthen (if sent_size r = rawsize then printer_raster_end else ret 0) (\<lambda>rc.
                 if rc \<noteq> 0 then ret (Some 1, r)
                 else if page_size r = 8192 \<or> sent_size r = rawsize then
                   andthen printer_print_page (\<lambda>rc.
                     if rc \<noteq> 0 then ret (Some 1, r) else ret (None, r\<lparr>page_size := 0\<rparr>))
                 else ret (None, r)))"

text \<open>
  Lines 476 to 498: one pass through the body of the \<^verbatim>\<open>do\<close> loop. The result is
  \<open>Some rc\<close> when the body executed \<^verbatim>\<open>return rc\<close>, and \<open>None\<close> when it ran to its end.
  A read beyond the end of \<^verbatim>\<open>raw\<close> halts with \<open>Out_of_bounds\<close>.
\<close>

definition raster_body :: "u8 list \<Rightarrow> nat \<Rightarrow> raster \<Rightarrow> (int option \<times> raster) run" where
  "raster_body raw rawsize r0 =
     (if length (block r0) \<le> 4 + block_size r0 then halt_with (Out_of_bounds (4 + block_size r0))
      else if length raw \<le> sent_size r0 then halt_with (Out_of_bounds (sent_size r0))
      else
        let r = r0\<lparr>block := (block r0)[4 + block_size r0 := raw ! sent_size r0]\<rparr>;
            r = r\<lparr>block_size := block_size r + 1\<rparr>;
            r = r\<lparr>sent_size := sent_size r + 1\<rparr>;
            r = r\<lparr>page_size := page_size r + 1\<rparr>
        in if block_size r = 60 \<or> page_size r = 8192 \<or> sent_size r = rawsize
           then raster_flush rawsize r
           else ret (None, r))"

lemma raster_body_sent:
  "raster_body raw rawsize r s = (Inr (x, r'), s') \<Longrightarrow> sent_size r' = sent_size r + 1"
  by (auto simp: raster_body_def raster_flush_def halt_with_def andthen_def ret_def Let_def
      split: if_splits prod.splits sum.splits)

function raster_loop :: "u8 list \<Rightarrow> nat \<Rightarrow> raster \<Rightarrow> int run" where
  "raster_loop raw rawsize r s =
     (case raster_body raw rawsize r s of
        (Inl h, s') \<Rightarrow> (Inl h, s')
      | (Inr (Some rc, r'), s') \<Rightarrow> (Inr rc, s')
      | (Inr (None, r'), s') \<Rightarrow>
          if sent_size r' < rawsize then raster_loop raw rawsize r' s' else (Inr 0, s'))"
  by pat_completeness auto
termination
proof (relation "measure (\<lambda>(raw, rawsize, r, s). rawsize - sent_size r)")
  show "wf (measure (\<lambda>(raw, rawsize, r, s). rawsize - sent_size r))" by simp
next
  fix raw :: "u8 list" and rawsize r s x1 x2 x2a x1a x2b
  assume "(x1, x2) = raster_body raw rawsize r s" "x1 = Inr x2a" "(x1a, x2b) = x2a" "x1a = None"
    "sent_size x2b < rawsize"
  then have "raster_body raw rawsize r s = (Inr (None, x2b), x2)" by simp
  from raster_body_sent [OF this] \<open>sent_size x2b < rawsize\<close>
  show "((raw, rawsize, x2b, x2), raw, rawsize, r, s)
         \<in> measure (\<lambda>(raw, rawsize, r, s). rawsize - sent_size r)" by simp
qed

declare raster_loop.simps [simp del]

definition printer_send_raster :: "u8 list \<Rightarrow> nat \<Rightarrow> int run" where
  "printer_send_raster raw rawsize =
     raster_loop raw rawsize
       \<lparr>sent_size = 0, page_size = 0, block_size = 0, block = replicate 64 0\<rparr>"

subsection \<open>PBM loader\<close>

text \<open>
  \<^verbatim>\<open>getc\<close> gives the next byte of the input, or \<^verbatim>\<open>EOF\<close>, which is \<open>-1\<close>, at its end;
  \<^verbatim>\<open>ungetc\<close> puts a byte back in front of it.
\<close>

definition getc :: "world \<Rightarrow> int \<times> world" where
  "getc s = (case fin s of [] \<Rightarrow> (- 1, s) | c # cs \<Rightarrow> (uint c, s\<lparr>fin := cs\<rparr>))"

definition ungetc :: "u8 \<Rightarrow> world \<Rightarrow> world" where
  "ungetc ch s = s\<lparr>fin := ch # fin s\<rparr>"

text \<open>
  The loops of lines 516 to 522. \<^verbatim>\<open>ch\<close> is a \<^verbatim>\<open>uint8_t\<close>: at the end of the input it gets
  \<open>0xFF\<close> from \<^verbatim>\<open>EOF\<close>, which is not a newline, so the inner loop of lines 518 to 520
  never ends on a comment that no newline closes: there \<open>skip_line\<close> is \<open>None\<close>.
\<close>

partial_function (option) skip_line :: "world \<Rightarrow> world option" where
  "skip_line s =
     (case getc s of (c, s1) \<Rightarrow>
        if (word_of_int c :: u8) \<noteq> 0x0A then skip_line s1 else Some s1)"

partial_function (option) skip_comments :: "u8 \<Rightarrow> world \<Rightarrow> (u8 \<times> world) option" where
  "skip_comments ch s =
     (if ch = 0x23 then
        Option.bind (skip_line s)
          (\<lambda>s1. case getc s1 of (c, s2) \<Rightarrow> skip_comments (word_of_int c) s2)
      else Some (ch, s))"

text \<open>
  The directive \<^verbatim>\<open>%u\<close> of \<^verbatim>\<open>fscanf\<close>: white space is skipped, then an optional sign and
  the longest run of decimal digits are read and converted as \<^verbatim>\<open>strtoul\<close> does, with an
  \<^verbatim>\<open>unsigned long\<close> of 64 bits: a value above the largest one gives the largest one,
  and a minus sign negates modulo \<open>2 ^ 64\<close>. The result is \<open>None\<close> when there is no
  digit (the input ended or does not match). The C standard leaves the behaviour undefined
  when the value does not fit the \<^verbatim>\<open>unsigned\<close> object, of 32 bits: that halts with
  \<open>Unrepresentable\<close>. The second component is the input left unread.
\<close>

definition is_space :: "u8 \<Rightarrow> bool" where
  "is_space c \<longleftrightarrow> c = 0x20 \<or> (0x09 \<le> c \<and> c \<le> 0x0D)"

definition is_digit :: "u8 \<Rightarrow> bool" where
  "is_digit c \<longleftrightarrow> 0x30 \<le> c \<and> c \<le> 0x39"

definition scan_u :: "u8 list \<Rightarrow> (halt + nat option) \<times> u8 list" where
  "scan_u input =
     (let bs = dropWhile is_space input;
          neg = (bs \<noteq> [] \<and> hd bs = 0x2D);
          bs1 = (if bs \<noteq> [] \<and> (hd bs = 0x2B \<or> hd bs = 0x2D) then tl bs else bs);
          ds = takeWhile is_digit bs1;
          v = foldl (\<lambda>a d. 10 * a + (unat d - 48)) 0 ds;
          u = (if 2 ^ 64 \<le> v then 2 ^ 64 - 1 else if neg then (2 ^ 64 - v) mod 2 ^ 64 else v)
      in if ds = [] then (Inr None, bs1)
         else if 2 ^ 32 \<le> u then (Inl (Unrepresentable u), dropWhile is_digit bs1)
         else (Inr (Some u), dropWhile is_digit bs1))"

text \<open>
  \<^verbatim>\<open>fscanf(fin, "%u %u\n", &img_w, &img_h)\<close> of line 525: the result is the two numbers
  when the call returns 2, and \<open>None\<close> when it returns anything else. The space and the
  newline of the format each skip all the white space that comes next, whatever its
  length: the bytes \<open>0x09\<close> to \<open>0x0D\<close> and \<open>0x20\<close>.
\<close>

definition fscanf_size :: "world \<Rightarrow> (halt + (nat \<times> nat) option) \<times> world" where
  "fscanf_size s =
     (case scan_u (fin s) of
        (Inl h, r) \<Rightarrow> (Inl h, s\<lparr>fin := r\<rparr>)
      | (Inr None, r) \<Rightarrow> (Inr None, s\<lparr>fin := r\<rparr>)
      | (Inr (Some w), r) \<Rightarrow>
          (case scan_u (dropWhile is_space r) of
             (Inl h, r) \<Rightarrow> (Inl h, s\<lparr>fin := r\<rparr>)
           | (Inr None, r) \<Rightarrow> (Inr None, s\<lparr>fin := r\<rparr>)
           | (Inr (Some h), r) \<Rightarrow> (Inr (Some (w, h)), s\<lparr>fin := dropWhile is_space r\<rparr>)))"

text \<open>
  Lines 508 to 528 of \<^verbatim>\<open>load_image\<close>: the signature, the comment lines and the size. The
  result is \<open>None\<close> where the function returns 1, else \<^verbatim>\<open>img_w\<close> and \<^verbatim>\<open>img_h\<close>.
\<close>

definition read_header :: "world \<Rightarrow> (halt + (nat \<times> nat) option) \<times> world" where
  "read_header s0 =
     (case getc s0 of (c1, s1) \<Rightarrow>
      if c1 \<noteq> 0x50 then (Inr None, s1) else
      (case getc s1 of (c2, s2) \<Rightarrow>
       if c2 \<noteq> 0x34 then (Inr None, s2) else
       (case getc s2 of (c3, s3) \<Rightarrow>
        if c3 \<noteq> 0x0A then (Inr None, s3) else
        (case getc s3 of (c, s4) \<Rightarrow>
         (case skip_comments (word_of_int c) s4 of
            None \<Rightarrow> (Inl Endless_loop, s4)
          | Some (ch, s5) \<Rightarrow> fscanf_size (ungetc ch s5))))))"

text \<open>
  The loop of lines 548 to 553. \<^verbatim>\<open>fread\<close> of one item of \<^verbatim>\<open>img_w\<close> bytes stores the
  bytes it gets at the start of the stripe and returns 1 only when the item is complete;
  for an item of size 0 it returns 0.
\<close>

function read_rows :: "nat \<Rightarrow> nat \<Rightarrow> nat \<Rightarrow> nat \<Rightarrow> int run" where
  "read_rows i img_h pad_h img_w s =
     (if i < img_h then
        let got = take img_w (fin s);
            s1 = s\<lparr>image_stripes := (image_stripes s)
                     [i + pad_h := got @ drop (length got) (image_stripes s ! (i + pad_h))],
                   fin := drop img_w (fin s)\<rparr>
        in if img_w = 0 \<or> length got < img_w then (Inr 1, s1)
           else read_rows (i + 1) img_h pad_h img_w s1
      else (Inr 0, s))"
  by pat_completeness auto
termination
  by (relation "measure (\<lambda>(i, img_h, pad_h, img_w, s). img_h - i)") auto

declare read_rows.simps [simp del]

text \<open>
  The three nested loops of lines 563 to 575. \<^verbatim>\<open>x\<close> and the index into \<^verbatim>\<open>pattern\<close> are
  \<^verbatim>\<open>unsigned\<close>: 32 bits, reduced modulo \<open>2 ^ 32\<close>. A store outside \<^verbatim>\<open>pattern\<close> halts
  with \<open>Out_of_bounds\<close>.
\<close>

function transpose_bits :: "nat \<Rightarrow> u8 \<Rightarrow> nat \<Rightarrow> nat \<Rightarrow> u8 list \<Rightarrow> halt + (u8 list \<times> nat)" where
  "transpose_bits i byte b x pat =
     (if b < 8 then
        if push_bit b (uint byte) AND 0x80 \<noteq> 0 then
          let idx = (x * (IMAGE_ROWS div 8) + i div 8) mod 2 ^ 32
          in if idx < length pat
             then transpose_bits i byte (b + 1) ((x + 1) mod 2 ^ 32)
                    (pat[idx := pat ! idx OR push_bit (i mod 8) 1])
             else Inl (Out_of_bounds idx)
        else transpose_bits i byte (b + 1) ((x + 1) mod 2 ^ 32) pat
      else Inr (pat, x))"
  by pat_completeness auto
termination
  by (relation "measure (\<lambda>(i, byte, b, x, pat). 8 - b)") auto

declare transpose_bits.simps [simp del]

function transpose_row :: "nat \<Rightarrow> u8 list \<Rightarrow> nat \<Rightarrow> nat \<Rightarrow> nat \<Rightarrow> u8 list \<Rightarrow> halt + u8 list" where
  "transpose_row i stripe w img_w x pat =
     (if w < img_w then
        case transpose_bits i (stripe ! w) 0 x pat of
          Inl h \<Rightarrow> Inl h
        | Inr (pat', x') \<Rightarrow> transpose_row i stripe (w + 1) img_w x' pat'
      else Inr pat)"
  by pat_completeness auto
termination
  by (relation "measure (\<lambda>(i, stripe, w, img_w, x, pat). img_w - w)") auto

declare transpose_row.simps [simp del]

function transpose_rows :: "nat \<Rightarrow> u8 list list \<Rightarrow> nat \<Rightarrow> u8 list \<Rightarrow> halt + u8 list" where
  "transpose_rows i stripes img_w pat =
     (if i < IMAGE_ROWS then
        case transpose_row i (stripes ! i) 0 img_w 0 pat of
          Inl h \<Rightarrow> Inl h
        | Inr pat' \<Rightarrow> transpose_rows (i + 1) stripes img_w pat'
      else Inr pat)"
  by pat_completeness auto
termination
  by (relation "measure (\<lambda>(i, stripes, img_w, pat). IMAGE_ROWS - i)") auto

declare transpose_rows.simps [simp del]

text \<open>
  \<^verbatim>\<open>load_image\<close>. The sizes are \<^verbatim>\<open>unsigned\<close>, 32 bits. \<^verbatim>\<open>calloc\<close> is taken to succeed.
\<close>

definition load_image :: "int run" where
  "load_image s0 =
     (case read_header s0 of
        (Inl h, s0) \<Rightarrow> (Inl h, s0)
      | (Inr None, s0) \<Rightarrow> (Inr 1, s0)
      | (Inr (Some (w0, h0)), s0) \<Rightarrow>
          let img_h = (if h0 > IMAGE_ROWS then IMAGE_ROWS else h0);
              pad_h = (IMAGE_ROWS - img_h) div 2;
              s = s0\<lparr>image_w := w0\<rparr>;
              img_w = ((image_w s + 7) mod 2 ^ 32) div 8;
              s = s\<lparr>image_stripes := replicate IMAGE_ROWS (replicate img_w 0)\<rparr>
          in (case read_rows 0 img_h pad_h img_w s of
                (Inl h, s) \<Rightarrow> (Inl h, s)
              | (Inr rc, s) \<Rightarrow>
                  (if rc \<noteq> 0 then (Inr 1, s)
                   else
                     (let s = s\<lparr>pattern_size := (IMAGE_ROWS div 8 * image_w s) mod 2 ^ 32\<rparr>;
                          s = s\<lparr>pattern := replicate (pattern_size s) 0\<rparr>
                      in (case transpose_rows 0 (image_stripes s) img_w (pattern s) of
                            Inl h \<Rightarrow> (Inl h, s)
                          | Inr pat \<Rightarrow> (Inr 0, s\<lparr>pattern := pat\<rparr>))))))"

subsection \<open>Main\<close>

text \<open>The statement \<^verbatim>\<open>if (!need_cancel) need_cancel = step();\<close> of lines 721 to 738.\<close>

definition latch :: "bool \<Rightarrow> int run \<Rightarrow> bool run" where
  "latch need_cancel step =
     (if \<not> need_cancel then andthen step (\<lambda>rc. ret (rc \<noteq> 0)) else ret need_cancel)"

text \<open>
  \<^verbatim>\<open>main\<close> from line 702 on: the options are parsed, the device is open and its
  interface claimed. The release of the device at the end leaves no trace in the state.
\<close>

definition main :: "int run" where
  "main =
     andthen printer_check_status (\<lambda>_.
     andthen printer_reset (\<lambda>_. (\<lambda>s.
       (case opt_operation s of
          OPERATION_FEED \<Rightarrow> andthen printer_tape_feed (\<lambda>_. ret 0)
        | OPERATION_CUT \<Rightarrow> andthen printer_tape_cut (\<lambda>_. ret 0)
        | OPERATION_HALFCUT \<Rightarrow> andthen printer_tape_halfcut (\<lambda>_. ret 0)
        | OPERATION_PRINT \<Rightarrow>
            andthen load_image (\<lambda>rc.
              if rc \<noteq> 0 then ret 1
              else
                andthen (latch False printer_prejob) (\<lambda>need_cancel.
                andthen (latch need_cancel (\<lambda>s. printer_check_tape (opt_tape s) s)) (\<lambda>need_cancel.
                andthen (latch need_cancel printer_reset) (\<lambda>need_cancel.
                andthen (latch need_cancel printer_set_speed) (\<lambda>need_cancel.
                andthen (latch need_cancel (\<lambda>s. printer_set_margin (opt_margin s) s)) (\<lambda>need_cancel.
                andthen (latch need_cancel (\<lambda>s. printer_set_density (opt_density s) s)) (\<lambda>need_cancel.
                andthen (latch need_cancel (\<lambda>s. printer_set_cutter (opt_cutter s) s)) (\<lambda>need_cancel.
                andthen (latch need_cancel printer_check_status) (\<lambda>need_cancel.
                andthen (latch need_cancel (\<lambda>s. printer_send_raster (pattern s) (pattern_size s) s))
                  (\<lambda>need_cancel.
                andthen printer_cancel_job (\<lambda>_. ret 0))))))))))))
       s)))"


section \<open>Vocabulary of the properties\<close>

text \<open>The frames that a call has put on the wire.\<close>

definition emitted :: "world \<Rightarrow> world \<Rightarrow> u8 list list" where
  "emitted s s' = drop (length (wire s)) (wire s')"

text \<open>The buffer that \<^verbatim>\<open>send_to_printer\<close> hands to the OUT endpoint.\<close>

definition out_frame :: "u8 list \<Rightarrow> nat \<Rightarrow> EPSIZE_T \<Rightarrow> u8 list" where
  "out_frame d cnt epsize = take (epsize_val epsize) (take cnt d @ replicate (KLG2_EPSIZE - cnt) 0)"

text \<open>The 64-byte frame of a raster block with payload \<open>p\<close>, and the frames of the two
  commands that close a page.\<close>

definition raster_block_frame :: "u8 list \<Rightarrow> u8 list" where
  "raster_block_frame p =
     [PRINTER_STX, 0xFE, of_nat (length p), 0] @ p @ replicate (60 - length p) 0"

definition raster_end_frame :: "u8 list" where
  "raster_end_frame = [PRINTER_STX, 0x04] @ replicate 14 0"

definition print_page_frame :: "u8 list" where
  "print_page_frame = [0x0C]"

definition cancel_job_frame :: "u8 list" where
  "cancel_job_frame = [0x18]"

definition raster_frame_ok :: "u8 list \<Rightarrow> bool" where
  "raster_frame_ok f \<longleftrightarrow> f = print_page_frame \<or> f = raster_end_frame \<or>
     (\<exists>q. f = raster_block_frame q \<and> 1 \<le> length q \<and> length q \<le> 60)"

text \<open>The payload that a 64-byte frame declares, and the payloads of a trace, in order.\<close>

definition frame_payload :: "u8 list \<Rightarrow> u8 list" where
  "frame_payload f = take (unat (f ! 2)) (drop 4 f)"

definition raster_payloads :: "u8 list list \<Rightarrow> u8 list" where
  "raster_payloads fs = concat (map frame_payload (filter (\<lambda>f. length f = 64) fs))"

text \<open>The bytes waiting in \<^verbatim>\<open>block\<close>, the invariant of the loop at the head of its body,
  and the frames that one pass through the body sends when no command fails.\<close>

definition pending :: "raster \<Rightarrow> u8 list" where
  "pending r = take (block_size r) (drop 4 (block r))"

definition raster_inv :: "raster \<Rightarrow> bool" where
  "raster_inv r \<longleftrightarrow>
     length (block r) = 64 \<and> page_size r = sent_size r mod 8192 \<and> block_size r = page_size r mod 60"

definition step_frames :: "u8 list \<Rightarrow> nat \<Rightarrow> raster \<Rightarrow> u8 list list" where
  "step_frames raw rawsize r =
     (let p = pending r @ [raw ! sent_size r];
          final = (sent_size r + 1 = rawsize);
          pp = (page_size r + 1 = 8192 \<or> final);
          flush = (block_size r + 1 = 60 \<or> pp)
      in (if flush then [raster_block_frame p] else []) @
         (if final then [raster_end_frame] else []) @
         (if pp then [print_page_frame] else []))"

text \<open>A link that completes every OUT transfer and a printer that acknowledges every command.\<close>

definition acking :: "world \<Rightarrow> bool" where
  "acking s \<longleftrightarrow>
     usb_out s = sconst (Some (\<lambda>n. (0, n))) \<and> usb_in s = sconst (Some (0, [PRINTER_ACK]))"

text \<open>Every frame that a computation puts on the wire, whatever its outcome, is in \<open>A\<close>.\<close>

definition emits :: "'a run \<Rightarrow> u8 list set \<Rightarrow> bool" where
  "emits m A \<longleftrightarrow> (\<forall>s r s'. m s = (r, s') \<longrightarrow> (\<exists>fs. wire s' = wire s @ fs \<and> set fs \<subseteq> A))"

text \<open>
  The state in which \<^verbatim>\<open>main\<close> reaches line 702 with the options at their defaults: a link
  that completes every OUT transfer, the printer's answers \<open>replies\<close>, and the standard
  input \<open>input\<close>.
\<close>

definition start :: "(int \<times> u8 list) option stream \<Rightarrow> u8 list \<Rightarrow> world" where
  "start replies input =
     \<lparr>wire = [], usb_out = sconst (Some (\<lambda>n. (0, n))), usb_in = replies,
      fin = input,
      opt_density = DENSITYCODE_3, opt_margin = MARGINCODE_SMALL, opt_tape = TAPECODE_12MM,
      opt_cutter = CUTTERCODE_HALFCUT, opt_operation = OPERATION_PRINT,
      image_w = 0, image_stripes = [], pattern_size = 0, pattern = []\<rparr>"

text \<open>No access outside an array, whatever the state.\<close>

definition no_fault :: "'a run \<Rightarrow> bool" where
  "no_fault m \<longleftrightarrow> (\<forall>s i. fst (m s) \<noteq> Inl (Out_of_bounds i))"

text \<open>A pattern of 8193 zero bytes sent to a printer that acknowledges everything.\<close>

definition two_page_run :: "(halt + int) \<times> world" where
  "two_page_run =
     printer_send_raster (replicate 8193 0) 8193 (start (sconst (Some (0, [0x06]))) [])"

text \<open>The frames of the status check, of the reset and of the two steps of the prejob.\<close>

definition status_check_frame :: "u8 list" where
  "status_check_frame = [PRINTER_STX, 0x1D] @ replicate 14 0"

definition reset_frame :: "u8 list" where
  "reset_frame = [0x02, 0x01] @ replicate 14 0"

text \<open>
  The nine statements of lines 721 to 738, in order, and their execution one after the
  other with the flag \<^verbatim>\<open>need_cancel\<close> handed on.
\<close>

definition job_steps :: "int run list" where
  "job_steps =
     [printer_prejob,
      (\<lambda>s. printer_check_tape (opt_tape s) s),
      printer_reset,
      printer_set_speed,
      (\<lambda>s. printer_set_margin (opt_margin s) s),
      (\<lambda>s. printer_set_density (opt_density s) s),
      (\<lambda>s. printer_set_cutter (opt_cutter s) s),
      printer_check_status,
      (\<lambda>s. printer_send_raster (pattern s) (pattern_size s) s)]"

fun latched :: "bool \<Rightarrow> int run list \<Rightarrow> bool run" where
  "latched need_cancel [] = ret need_cancel"
| "latched need_cancel (step # steps) =
     andthen (latch need_cancel step) (\<lambda>need_cancel. latched need_cancel steps)"

definition prejob_frames :: "u8 list list" where
  "prejob_frames =
     [[PRINTER_STX, 0x02, 0x04, 0x00, 0x00, 0x09, 0x09, 0x01] @ replicate 8 0,
      [PRINTER_STX, 0x82] @ replicate 14 0]"

text \<open>A run in which the printer answers every command with the single byte 0x06, on the
  empty image \<^verbatim>\<open>P4\n0 0\n\<close>, and the same run with the operation set to tape feed, on an
  empty input.\<close>

definition all_ack_print :: world where
  "all_ack_print = start (sconst (Some (0, [0x06]))) [0x50, 0x34, 0x0A, 0x30, 0x20, 0x30, 0x0A]"

definition all_ack_feed :: world where
  "all_ack_feed = (start (sconst (Some (0, [0x06]))) [])\<lparr>opt_operation := OPERATION_FEED\<rparr>"

text \<open>Row \<open>k\<close> of the pixel data that follows the header: \<open>img_w\<close> bytes.\<close>

definition pbm_row :: "nat \<Rightarrow> u8 list \<Rightarrow> nat \<Rightarrow> u8 list" where
  "pbm_row img_w input k = take img_w (drop (k * img_w) input)"

text \<open>
  Three files. \<^verbatim>\<open>P4\n4 1\n\<close> and the row byte F8: width 4, and the padding bits of the row
  are set. \<^verbatim>\<open>P4\n4 2\n\<close> and the row bytes A0 and 50: width 4, two rows, clear padding bits.
  \<^verbatim>\<open>P4\n8 1\n\<close> and the row byte 0A: width 8, one row, the pixels 00001010.
\<close>

definition padded_bitmap :: world where
  "padded_bitmap = start (sconst (Some (0, [0x06]))) [0x50, 0x34, 0x0A, 0x34, 0x20, 0x31, 0x0A, 0xF8]"

definition newline_bitmap :: world where
  "newline_bitmap = start (sconst (Some (0, [0x06]))) [0x50, 0x34, 0x0A, 0x38, 0x20, 0x31, 0x0A, 0x0A]"

definition two_row_bitmap :: world where
  "two_row_bitmap =
     start (sconst (Some (0, [0x06]))) [0x50, 0x34, 0x0A, 0x34, 0x20, 0x32, 0x0A, 0xA0, 0x50]"

text \<open>
  Pixel \<open>(i, x)\<close> of the canvas (row \<open>i\<close>, column \<open>x\<close>, most significant bit first) and of
  the pattern (column \<open>x\<close> is 16 bytes, least significant bit first), and the canvas read
  back from a pattern.
\<close>

definition canvas_bit :: "u8 list list \<Rightarrow> nat \<Rightarrow> nat \<Rightarrow> bool" where
  "canvas_bit stripes i x = bit (stripes ! i ! (x div 8)) (7 - x mod 8)"

definition pattern_bit :: "u8 list \<Rightarrow> nat \<Rightarrow> nat \<Rightarrow> bool" where
  "pattern_bit pat i x = bit (pat ! (x * 16 + i div 8)) (i mod 8)"

definition untranspose :: "nat \<Rightarrow> u8 list \<Rightarrow> u8 list list" where
  "untranspose width pat =
     map (\<lambda>i. map (\<lambda>k. horner_sum of_bool 2
                  (map (\<lambda>c. 8 * k + (7 - c) < width \<and> pattern_bit pat i (8 * k + (7 - c))) [0..<8]))
                [0..<(width + 7) div 8])
         [0..<128]"

section \<open>Frames and acknowledgements\<close>

lemma andthen_Inr:
  "andthen m f s = (Inr y, s') \<longleftrightarrow> (\<exists>x s1. m s = (Inr x, s1) \<and> f x s1 = (Inr y, s'))"
  by (auto simp: andthen_def split: sum.splits prod.splits)

lemma send_to_printer_cases:
  assumes "send_to_printer d cnt e s = (r, s')"
  shows "(\<exists>h. r = Inl h \<and> s' = s) \<or>
         (\<exists>h. r = Inl h \<and> s' = s\<lparr>wire := wire s @ [out_frame d cnt e]\<rparr>) \<or>
         (\<exists>h. r = Inl h \<and> s' = s\<lparr>wire := wire s @ [out_frame d cnt e], usb_out := stl (usb_out s)\<rparr>) \<or>
         (r = Inr (int (epsize_val e)) \<and> cnt \<le> epsize_val e \<and> cnt \<le> length d \<and>
          (\<exists>f. shd (usb_out s) = Some f \<and> f (epsize_val e) = (0, epsize_val e)) \<and>
          s' = s\<lparr>wire := wire s @ [out_frame d cnt e], usb_out := stl (usb_out s)\<rparr>)"
  using assms
  by (auto simp: send_to_printer_def out_frame_def Let_def prod_eq_iff split: if_splits option.splits)

lemma send_to_printer_Inr:
  assumes "send_to_printer d cnt e s = (Inr x, s')"
  shows "s' = s\<lparr>wire := wire s @ [out_frame d cnt e], usb_out := stl (usb_out s)\<rparr> \<and>
         cnt \<le> epsize_val e \<and> cnt \<le> length d \<and>
         (\<exists>f. shd (usb_out s) = Some f \<and> f (epsize_val e) = (0, epsize_val e))"
  using send_to_printer_cases [OF assms] by auto

lemma send_to_printer_healthy:
  assumes "shd (usb_out s) = Some f" "f (epsize_val e) = (0, epsize_val e)"
    "cnt \<le> epsize_val e" "cnt \<le> length d"
  shows "send_to_printer d cnt e s =
    (Inr (int (epsize_val e)), s\<lparr>wire := wire s @ [out_frame d cnt e], usb_out := stl (usb_out s)\<rparr>)"
  using assms by (simp add: send_to_printer_def out_frame_def Let_def)

lemma send_to_printer_wire:
  assumes "cnt \<le> epsize_val e" "cnt \<le> length d"
  shows "wire (snd (send_to_printer d cnt e s)) = wire s @ [out_frame d cnt e]"
  using assms by (simp add: send_to_printer_def out_frame_def Let_def split: option.splits)

lemma recv_from_printer_cases:
  assumes "recv_from_printer s = (r, s')"
  shows "(r = Inl Blocked \<and> s' = s \<and> shd (usb_in s) = None) \<or>
         (\<exists>rc d. shd (usb_in s) = Some (rc, d) \<and> s' = s\<lparr>usb_in := stl (usb_in s)\<rparr> \<and>
            r = (if rc \<noteq> 0 then Inl (Abort_receive rc) else Inr (take 64 d)))"
  using assms
  by (auto simp: recv_from_printer_def Let_def KLG2_EPSIZE_def split: if_splits option.splits)

lemma ack_shape:
  "(length (take 64 d) \<noteq> 1 \<or> take 64 d ! 0 \<noteq> y) \<longleftrightarrow> d \<noteq> [y]"
proof (cases d)
  case Nil
  then show ?thesis by simp
next
  case (Cons a ds)
  have "take 64 (a # ds) = a # take 63 ds" by (simp add: take_Cons')
  then show ?thesis using Cons by (cases ds) auto
qed

lemma printer_recv_ack_cases:
  assumes "printer_recv_ack s = (r, s')"
  shows "(r = Inl Blocked \<and> s' = s \<and> shd (usb_in s) = None) \<or>
         (\<exists>rc d. shd (usb_in s) = Some (rc, d) \<and> s' = s\<lparr>usb_in := stl (usb_in s)\<rparr> \<and>
            r = (if rc \<noteq> 0 then Inl (Abort_receive rc)
                 else if d = [PRINTER_ACK] then Inr 0 else Inr 1))"
proof (cases "shd (usb_in s)")
  case None
  with assms show ?thesis
    by (simp add: printer_recv_ack_def andthen_def recv_from_printer_def)
next
  case (Some p)
  obtain rc d where p: "p = (rc, d)" by (cases p)
  show ?thesis
  proof (cases "rc = 0")
    case True
    have "printer_recv_ack s =
        (if d \<noteq> [PRINTER_ACK] then Inr 1 else Inr 0, s\<lparr>usb_in := stl (usb_in s)\<rparr>)"
      unfolding printer_recv_ack_def andthen_def recv_from_printer_def
      using Some p True ack_shape [of d PRINTER_ACK]
      by (simp add: ret_def KLG2_EPSIZE_def del: One_nat_def)
    with assms Some p True show ?thesis by auto
  next
    case False
    with assms Some p show ?thesis
      by (simp add: printer_recv_ack_def andthen_def recv_from_printer_def)
  qed
qed

lemma printer_recv_ack_wire:
  "printer_recv_ack s = (r, s') \<Longrightarrow> wire s' = wire s \<and> usb_out s' = usb_out s"
  by (drule printer_recv_ack_cases) auto

lemma printer_recv_ack_healthy:
  "shd (usb_in s) = Some (0, d) \<Longrightarrow>
   printer_recv_ack s = (Inr (if d = [PRINTER_ACK] then 0 else 1), s\<lparr>usb_in := stl (usb_in s)\<rparr>)"
  by (cases "printer_recv_ack s") (auto dest!: printer_recv_ack_cases)

text \<open>A command that sends one frame and waits for the acknowledgement.\<close>

lemma send_ack_Inr:
  assumes "andthen (send_to_printer d cnt e) (\<lambda>_. printer_recv_ack) s = (Inr rc, s')"
  shows "wire s' = wire s @ [out_frame d cnt e] \<and> cnt \<le> epsize_val e \<and> cnt \<le> length d
     \<and> (rc = 0 \<or> rc = 1)"
proof -
  obtain r1 s1 where a: "send_to_printer d cnt e s = (r1, s1)" by (cases "send_to_printer d cnt e s")
  with assms obtain x where r1: "r1 = Inr x" and b: "printer_recv_ack s1 = (Inr rc, s')"
    by (auto simp: andthen_def split: sum.splits)
  from send_to_printer_Inr [OF a [unfolded r1]] printer_recv_ack_wire [OF b]
    printer_recv_ack_cases [OF b]
  show ?thesis by (auto split: if_splits)
qed

lemma send_ack_any:
  assumes "andthen (send_to_printer d cnt e) (\<lambda>_. printer_recv_ack) s = (r, s')"
  shows "wire s' = wire s \<or> wire s' = wire s @ [out_frame d cnt e]"
proof -
  obtain r1 s1 where a: "send_to_printer d cnt e s = (r1, s1)" by (cases "send_to_printer d cnt e s")
  show ?thesis
  proof (cases r1)
    case (Inl h)
    with a assms have "s' = s1" by (simp add: andthen_def)
    with send_to_printer_cases [OF a] show ?thesis by auto
  next
    case (Inr x)
    with a assms have b: "printer_recv_ack s1 = (r, s')" by (simp add: andthen_def)
    from send_to_printer_Inr [OF a [unfolded Inr]] printer_recv_ack_wire [OF b]
    show ?thesis by auto
  qed
qed

lemma send_ack_result:
  assumes "shd (usb_out s) = Some f" "f (epsize_val e) = (0, epsize_val e)"
    "cnt \<le> epsize_val e" "cnt \<le> length d" "shd (usb_in s) = Some (0, rsp)"
  shows "fst (andthen (send_to_printer d cnt e) (\<lambda>_. printer_recv_ack) s)
       = Inr (if rsp = [PRINTER_ACK] then 0 else 1)"
proof -
  define s1 where "s1 = s\<lparr>wire := wire s @ [out_frame d cnt e], usb_out := stl (usb_out s)\<rparr>"
  have "send_to_printer d cnt e s = (Inr (int (epsize_val e)), s1)"
    unfolding s1_def by (rule send_to_printer_healthy [OF assms(1-4)])
  moreover have "shd (usb_in s1) = Some (0, rsp)" using assms(5) by (simp add: s1_def)
  ultimately show ?thesis
    by (simp add: andthen_def printer_recv_ack_healthy)
qed

lemma acking_wire [simp]: "acking (s\<lparr>wire := w\<rparr>) = acking s"
  by (simp add: acking_def)

lemma send_ack_acking:
  assumes "acking s" "cnt \<le> epsize_val e" "cnt \<le> length d"
  shows "andthen (send_to_printer d cnt e) (\<lambda>_. printer_recv_ack) s
       = (Inr 0, s\<lparr>wire := wire s @ [out_frame d cnt e]\<rparr>)"
proof -
  define s1 where "s1 = s\<lparr>wire := wire s @ [out_frame d cnt e], usb_out := stl (usb_out s)\<rparr>"
  have o: "shd (usb_out s) = Some (\<lambda>n. (0, n))" and o': "stl (usb_out s) = usb_out s"
    and i: "shd (usb_in s) = Some (0, [PRINTER_ACK])" and i': "stl (usb_in s) = usb_in s"
    using assms(1) by (simp_all add: acking_def)
  have a: "send_to_printer d cnt e s = (Inr (int (epsize_val e)), s1)"
    unfolding s1_def by (rule send_to_printer_healthy [OF o _ assms(2,3)]) simp
  have "shd (usb_in s1) = Some (0, [PRINTER_ACK])" using i by (simp add: s1_def)
  from printer_recv_ack_healthy [OF this]
  have b: "printer_recv_ack s1 = (Inr 0, s1\<lparr>usb_in := stl (usb_in s1)\<rparr>)" by simp
  have "s1\<lparr>usb_in := stl (usb_in s1)\<rparr> = s\<lparr>wire := wire s @ [out_frame d cnt e]\<rparr>"
    by (simp add: s1_def o' i')
  with a b show ?thesis by (simp add: andthen_def)
qed

lemma emits_ret: "emits (ret x) A"
  by (simp add: emits_def ret_def)

lemma emits_halt: "emits (halt_with h) A"
  by (simp add: emits_def halt_with_def)

lemma emits_if: "emits a A \<Longrightarrow> emits b A \<Longrightarrow> emits (if c then a else b) A"
  by simp

lemma emits_andthen:
  assumes "emits m A" "\<And>x. emits (f x) A"
  shows "emits (andthen m f) A"
  unfolding emits_def
proof (intro allI impI)
  fix s r s'
  assume a: "andthen m f s = (r, s')"
  obtain r1 s1 where m: "m s = (r1, s1)" by (cases "m s")
  from assms(1) m obtain fs1 where f1: "wire s1 = wire s @ fs1" "set fs1 \<subseteq> A"
    unfolding emits_def by blast
  show "\<exists>fs. wire s' = wire s @ fs \<and> set fs \<subseteq> A"
  proof (cases r1)
    case (Inl h)
    with a m have "s' = s1" by (simp add: andthen_def)
    with f1 show ?thesis by blast
  next
    case (Inr x)
    with a m have "f x s1 = (r, s')" by (simp add: andthen_def)
    with assms(2) [of x] obtain fs2 where "wire s' = wire s1 @ fs2" "set fs2 \<subseteq> A"
      unfolding emits_def by blast
    with f1 have "wire s' = wire s @ (fs1 @ fs2) \<and> set (fs1 @ fs2) \<subseteq> A" by simp
    then show ?thesis by blast
  qed
qed

lemma emits_send_ack:
  assumes "out_frame d cnt e \<in> A"
  shows "emits (andthen (send_to_printer d cnt e) (\<lambda>_. printer_recv_ack)) A"
  unfolding emits_def
proof (intro allI impI)
  fix s r s'
  assume "andthen (send_to_printer d cnt e) (\<lambda>_. printer_recv_ack) s = (r, s')"
  from send_ack_any [OF this] show "\<exists>fs. wire s' = wire s @ fs \<and> set fs \<subseteq> A"
  proof
    assume "wire s' = wire s"
    then have "wire s' = wire s @ [] \<and> set [] \<subseteq> A" by simp
    then show ?thesis by blast
  next
    assume "wire s' = wire s @ [out_frame d cnt e]"
    with assms have "wire s' = wire s @ [out_frame d cnt e] \<and> set [out_frame d cnt e] \<subseteq> A" by simp
    then show ?thesis by blast
  qed
qed

lemma send_ack_wire:
  assumes "cnt \<le> epsize_val e" "cnt \<le> length d"
  shows "wire (snd (andthen (send_to_printer d cnt e) (\<lambda>_. printer_recv_ack) s))
       = wire s @ [out_frame d cnt e]"
proof -
  obtain r s' where a: "andthen (send_to_printer d cnt e) (\<lambda>_. printer_recv_ack) s = (r, s')"
    by (cases "andthen (send_to_printer d cnt e) (\<lambda>_. printer_recv_ack) s")
  obtain r1 s1 where b: "send_to_printer d cnt e s = (r1, s1)" by (cases "send_to_printer d cnt e s")
  from send_to_printer_wire [OF assms, of s] b have w1: "wire s1 = wire s @ [out_frame d cnt e]" by simp
  have "wire s' = wire s @ [out_frame d cnt e]"
  proof (cases r1)
    case (Inl h)
    with a b have "s' = s1" by (simp add: andthen_def)
    with w1 show ?thesis by simp
  next
    case (Inr x)
    with a b have "printer_recv_ack s1 = (r, s')" by (simp add: andthen_def)
    from printer_recv_ack_wire [OF this] w1 show ?thesis by simp
  qed
  then show ?thesis by (simp add: a)
qed

text \<open>
  C8: every command that only expects an acknowledgement accepts the response exactly when
  it is the single byte 0x06; any other response, of whatever length, makes it return 1,
  the recoverable error, and does not halt the process.
\<close>

theorem ack_only_validators:
  assumes "shd (usb_out s) = Some f" "\<forall>n. f n = (0, n)" "shd (usb_in s) = Some (0, rsp)"
  shows "fst (printer_recv_ack s) = Inr (if rsp = [0x06] then 0 else 1)
    \<and> fst (printer_reset s) = Inr (if rsp = [0x06] then 0 else 1)
    \<and> fst (printer_tape_cut s) = Inr (if rsp = [0x06] then 0 else 1)
    \<and> fst (printer_tape_halfcut s) = Inr (if rsp = [0x06] then 0 else 1)
    \<and> fst (printer_tape_feed s) = Inr (if rsp = [0x06] then 0 else 1)
    \<and> fst (printer_set_speed s) = Inr (if rsp = [0x06] then 0 else 1)
    \<and> fst (printer_check_tape tapeid s) = Inr (if rsp = [0x06] then 0 else 1)
    \<and> fst (printer_set_margin marginid s) = Inr (if rsp = [0x06] then 0 else 1)
    \<and> fst (printer_set_density densityid s) = Inr (if rsp = [0x06] then 0 else 1)
    \<and> fst (printer_set_cutter cutterid s) = Inr (if rsp = [0x06] then 0 else 1)
    \<and> fst (printer_prefeed_tape amount s) = Inr (if rsp = [0x06] then 0 else 1)
    \<and> fst (printer_raster_end s) = Inr (if rsp = [0x06] then 0 else 1)
    \<and> fst (printer_print_page s) = Inr (if rsp = [0x06] then 0 else 1)
    \<and> (length blk = 64 \<and> blksize \<le> 60 \<longrightarrow>
         fst (printer_raster_block blk blksize s) = Inr (if rsp = [0x06] then 0 else 1))"
proof -
  have f: "f (epsize_val e) = (0, epsize_val e)" for e using assms(2) by simp
  note r = send_ack_result [OF assms(1) f _ _ assms(3), unfolded PRINTER_ACK_def]
  have "fst (printer_recv_ack s) = Inr (if rsp = [0x06] then 0 else 1)"
    using printer_recv_ack_healthy [OF assms(3)] by (simp add: PRINTER_ACK_def)
  moreover have "fst (printer_reset s) = Inr (if rsp = [0x06] then 0 else 1)"
    unfolding printer_reset_def by (rule r) simp_all
  moreover have "fst (printer_tape_cut s) = Inr (if rsp = [0x06] then 0 else 1)"
    unfolding printer_tape_cut_def by (rule r) simp_all
  moreover have "fst (printer_tape_halfcut s) = Inr (if rsp = [0x06] then 0 else 1)"
    unfolding printer_tape_halfcut_def by (rule r) simp_all
  moreover have "fst (printer_tape_feed s) = Inr (if rsp = [0x06] then 0 else 1)"
    unfolding printer_tape_feed_def by (rule r) simp_all
  moreover have "fst (printer_set_speed s) = Inr (if rsp = [0x06] then 0 else 1)"
    unfolding printer_set_speed_def by (rule r) simp_all
  moreover have "fst (printer_check_tape tapeid s) = Inr (if rsp = [0x06] then 0 else 1)"
    unfolding printer_check_tape_def Let_def by (rule r) simp_all
  moreover have "fst (printer_set_margin marginid s) = Inr (if rsp = [0x06] then 0 else 1)"
    unfolding printer_set_margin_def Let_def by (rule r) simp_all
  moreover have "fst (printer_set_density densityid s) = Inr (if rsp = [0x06] then 0 else 1)"
    unfolding printer_set_density_def Let_def by (rule r) simp_all
  moreover have "fst (printer_set_cutter cutterid s) = Inr (if rsp = [0x06] then 0 else 1)"
    unfolding printer_set_cutter_def Let_def by (rule r) simp_all
  moreover have "fst (printer_prefeed_tape amount s) = Inr (if rsp = [0x06] then 0 else 1)"
    unfolding printer_prefeed_tape_def Let_def by (rule r) simp_all
  moreover have "fst (printer_raster_end s) = Inr (if rsp = [0x06] then 0 else 1)"
    unfolding printer_raster_end_def by (rule r) simp_all
  moreover have "fst (printer_print_page s) = Inr (if rsp = [0x06] then 0 else 1)"
    unfolding printer_print_page_def by (rule r) simp_all
  moreover have "fst (printer_raster_block blk blksize s) = Inr (if rsp = [0x06] then 0 else 1)"
    if "length blk = 64" "blksize \<le> 60"
    unfolding printer_raster_block_def using that by (intro r) (simp_all add: raster_header_def)
  ultimately show ?thesis by simp
qed

theorem ack_only_validators_witness:
  "fst (printer_recv_ack (start (sconst (Some (0, [0x06]))) [])) = Inr 0
   \<and> fst (printer_reset (start (sconst (Some (0, [0x1E]))) [])) = Inr 1
   \<and> fst (printer_print_page (start (sconst (Some (0, [0x06, 0x06]))) [])) = Inr 1
   \<and> fst (printer_tape_cut (start (sconst (Some (0, []))) [])) = Inr 1
   \<and> fst (printer_raster_block (replicate 64 0) 60 (start (sconst (Some (0, [0x06]))) []))
       = Inr 0"
  using ack_only_validators [of "start (sconst (Some (0, [0x06]))) []" "\<lambda>n. (0, n)" "[0x06]"
      _ _ _ _ _ "replicate 64 0" 60]
    ack_only_validators [of "start (sconst (Some (0, [0x1E]))) []" "\<lambda>n. (0, n)" "[0x1E]"]
    ack_only_validators [of "start (sconst (Some (0, [0x06, 0x06]))) []" "\<lambda>n. (0, n)" "[0x06, 0x06]"]
    ack_only_validators [of "start (sconst (Some (0, []))) []" "\<lambda>n. (0, n)" "[]"]
  by (simp add: start_def)

text \<open>
  C9: the command built for the small margin is the five bytes 02 0D 01 00 40 followed by
  eleven zero bytes; these 16 bytes are what is handed to the link, whatever follows, and
  the command returns only if the link reports 16 bytes transferred.
\<close>

theorem margin_small_frame:
  "wire (snd (printer_set_margin MARGINCODE_SMALL s))
     = wire s @ [[0x02, 0x0D, 0x01, 0x00, 0x40, 0, 0, 0, 0, 0, 0, 0, 0, 0, 0, 0]]
   \<and> length [0x02, 0x0D, 0x01, 0x00, 0x40, 0, 0, 0, 0, 0, 0, 0, 0, 0, 0, 0 :: u8] = 16
   \<and> (printer_set_margin MARGINCODE_SMALL s = (Inr rc, s') \<longrightarrow>
        (\<exists>f. shd (usb_out s) = Some f \<and> f 16 = (0, 16)))"
proof -
  have fr: "out_frame [PRINTER_STX, 0x0d, 0x01, 0x00, 0x40] 5 EPSIZE_16
      = [0x02, 0x0D, 0x01, 0x00, 0x40, 0, 0, 0, 0, 0, 0, 0, 0, 0, 0, 0]"
    by (simp add: out_frame_def KLG2_EPSIZE_def PRINTER_STX_def replicate_def
        eval_nat_numeral)
  have d: "printer_set_margin MARGINCODE_SMALL
      = andthen (send_to_printer [PRINTER_STX, 0x0d, 0x01, 0x00, 0x40] 5 EPSIZE_16) (\<lambda>_. printer_recv_ack)"
    by (simp add: printer_set_margin_def)
  have "wire (snd (printer_set_margin MARGINCODE_SMALL s))
     = wire s @ [[0x02, 0x0D, 0x01, 0x00, 0x40, 0, 0, 0, 0, 0, 0, 0, 0, 0, 0, 0]]"
    unfolding d using send_ack_wire [of 5 EPSIZE_16 "[PRINTER_STX, 0x0d, 0x01, 0x00, 0x40]" s]
    by (simp add: fr)
  moreover have "\<exists>f. shd (usb_out s) = Some f \<and> f 16 = (0, 16)"
    if "printer_set_margin MARGINCODE_SMALL s = (Inr rc, s')"
  proof -
    from that [unfolded d] obtain x s1 where
      "send_to_printer [PRINTER_STX, 0x0d, 0x01, 0x00, 0x40] 5 EPSIZE_16 s = (Inr x, s1)"
      unfolding andthen_Inr by blast
    from send_to_printer_Inr [OF this] show ?thesis by simp
  qed
  ultimately show ?thesis by simp
qed

theorem margin_small_frame_witness:
  "wire (snd (printer_set_margin MARGINCODE_SMALL (start (sconst (Some (0, [0x06]))) [])))
     = [[0x02, 0x0D, 0x01, 0x00, 0x40, 0, 0, 0, 0, 0, 0, 0, 0, 0, 0, 0]]
   \<and> fst (printer_set_margin MARGINCODE_SMALL (start (sconst (Some (0, [0x06]))) [])) = Inr 0
   \<and> (\<exists>f. shd (usb_out (start (sconst (Some (0, [0x06]))) [])) = Some f \<and> f 16 = (0, 16))"
proof -
  let ?s = "start (sconst (Some (0, [0x06]))) []"
  have a: "acking ?s" by (simp add: acking_def start_def PRINTER_ACK_def)
  have "printer_set_margin MARGINCODE_SMALL ?s
      = (Inr 0, ?s\<lparr>wire := wire ?s @ [out_frame [PRINTER_STX, 0x0d, 0x01, 0x00, 0x40] 5 EPSIZE_16]\<rparr>)"
    unfolding printer_set_margin_def Let_def
    using send_ack_acking [OF a, of 5 EPSIZE_16 "[PRINTER_STX, 0x0d, 0x01, 0x00, 0x40]"] by simp
  then obtain s' where r: "printer_set_margin MARGINCODE_SMALL ?s = (Inr 0, s')" by blast
  from margin_small_frame [of ?s 0 s'] r
  have "wire (snd (printer_set_margin MARGINCODE_SMALL ?s))
      = wire ?s @ [[0x02, 0x0D, 0x01, 0x00, 0x40, 0, 0, 0, 0, 0, 0, 0, 0, 0, 0, 0]]"
    and "\<exists>f. shd (usb_out ?s) = Some f \<and> f 16 = (0, 16)"
    by blast+
  moreover have "wire ?s = []" by (simp add: start_def)
  ultimately show ?thesis using r by simp
qed

section \<open>The raster loop\<close>

lemma raster_out_frame:
  assumes "length blk = 64" "n \<le> 60"
  shows "out_frame (raster_header blk n) ((n + 4) mod 256) EPSIZE_64
       = raster_block_frame (take n (drop 4 blk))"
proof -
  have "\<exists>a b c d rest. blk = a # b # c # d # rest"
    using assms(1) by (cases blk; simp; rename_tac t1; case_tac t1; simp; rename_tac t2; case_tac t2;
      simp; rename_tac t3; case_tac t3; simp)
  then obtain a b c d rest where blk: "blk = a # b # c # d # rest" by blast
  with assms have "length rest = 60" by simp
  have m: "(n + 4) mod 256 = n + 4" using assms by simp
  have t: "take (n + 4) (x1 # x2 # x3 # x4 # rest) = x1 # x2 # x3 # x4 # take n rest"
    for x1 x2 x3 x4 :: u8
    by (simp add: take_Cons')
  show ?thesis unfolding m using assms \<open>length rest = 60\<close>
    by (simp add: blk out_frame_def raster_header_def raster_block_frame_def KLG2_EPSIZE_def t)
qed

lemma printer_raster_block_Inr:
  assumes "printer_raster_block blk n s = (Inr rc, s1)" "length blk = 64" "n \<le> 60"
  shows "wire s1 = wire s @ [raster_block_frame (take n (drop 4 blk))]"
  using send_ack_Inr [OF assms(1) [unfolded printer_raster_block_def]] raster_out_frame [OF assms(2,3)]
  by simp

lemma raster_end_out_frame: "out_frame [PRINTER_STX, 0x04] 2 EPSIZE_16 = raster_end_frame"
  by (simp add: out_frame_def raster_end_frame_def KLG2_EPSIZE_def)

lemma print_page_out_frame: "out_frame [0x0C] 1 EPSIZE_1 = print_page_frame"
  by (simp add: out_frame_def print_page_frame_def KLG2_EPSIZE_def)

lemma printer_raster_end_Inr:
  "printer_raster_end s = (Inr rc, s1) \<Longrightarrow> wire s1 = wire s @ [raster_end_frame]"
  using send_ack_Inr [of "[PRINTER_STX, 0x04]" 2 EPSIZE_16 s rc s1]
  by (simp add: printer_raster_end_def raster_end_out_frame)

lemma printer_print_page_Inr:
  assumes "printer_print_page s = (Inr rc, s1)"
  shows "wire s1 = wire s @ [print_page_frame]"
  using send_ack_Inr [OF assms [unfolded printer_print_page_def]]
  by (simp only: print_page_out_frame)

lemma pending_store:
  assumes "4 + n < length xs"
  shows "take (Suc n) (drop 4 (xs[4 + n := v])) = take n (drop 4 xs) @ [v]"
proof -
  have "drop 4 (xs[4 + n := v]) = (drop 4 xs)[n := v]"
    by (simp add: drop_update_swap)
  moreover have "n < length (drop 4 xs)" using assms by simp
  ultimately show ?thesis
    by (simp add: take_Suc_conv_app_nth)
qed

lemma raster_body_quiet:
  assumes "raster_body raw rawsize r s = (res, s')" "length (block r) = 64" "block_size r < 60"
    and "block_size r + 1 \<noteq> 60" "page_size r + 1 \<noteq> 8192" "sent_size r + 1 \<noteq> rawsize"
    and "sent_size r < length raw"
  shows "s' = s \<and> res = Inr (None, r\<lparr>block := (block r)[4 + block_size r := raw ! sent_size r],
      block_size := block_size r + 1, sent_size := sent_size r + 1, page_size := page_size r + 1\<rparr>)"
  using assms by (simp add: raster_body_def Let_def ret_def)

lemma frames_of_body:
  assumes "length (block r) = 64" "block_size r < 60"
    "printer_raster_block ((block r)[4 + block_size r := v]) (Suc (block_size r)) s = (Inr rc, s1)"
  shows "wire s1 = wire s @ [raster_block_frame (pending r @ [v])]"
  using printer_raster_block_Inr [OF assms(3)] assms(1,2) pending_store [of "block_size r" "block r" v]
  by (simp add: pending_def)

lemma raster_body_flush:
  assumes "raster_body raw rawsize r s = (Inr (None, r'), s')"
    and "length (block r) = 64" "block_size r < 60"
    and "block_size r + 1 = 60 \<or> page_size r + 1 = 8192 \<or> sent_size r + 1 = rawsize"
  shows "wire s' = wire s @ step_frames raw rawsize r \<and> sent_size r < length raw \<and>
     sent_size r' = sent_size r + 1 \<and> length (block r') = 64 \<and> block_size r' = 0 \<and>
     page_size r' = (if page_size r + 1 = 8192 \<or> sent_size r + 1 = rawsize then 0 else page_size r + 1)"
proof -
  define v where "v = raw ! sent_size r"
  define blk where "blk = (block r)[4 + block_size r := v]"
  have fr: "wire s1 = wire s0 @ [raster_block_frame (pending r @ [v])]"
    if "printer_raster_block blk n s0 = (Inr rc, s1)" "n = block_size r + 1" for s0 s1 rc n
    using frames_of_body [OF assms(2,3), of v s0 rc s1] that by (simp add: blk_def)
  have lb: "length (raster_header blk n) = 64" for n
    using assms(2) by (simp add: raster_header_def blk_def)
  note ends = printer_raster_end_Inr printer_print_page_Inr
  from assms(1,2,3,4) show ?thesis
    unfolding raster_body_def raster_flush_def
    apply (simp add: Let_def andthen_Inr ret_def halt_with_def blk_def [symmetric] v_def [symmetric]
        del: One_nat_def split: if_splits)
      apply (auto simp: step_frames_def v_def lb dest!: fr ends)
    done
qed

lemma raster_body_Some:
  "raster_body raw rawsize r s = (Inr (Some rc, r'), s') \<Longrightarrow> rc = 1"
  unfolding raster_body_def raster_flush_def
  by (auto simp: Let_def andthen_Inr ret_def halt_with_def split: if_splits)

lemma raster_body_step:
  assumes "raster_body raw rawsize r s = (Inr (None, r'), s')" "raster_inv r"
  shows "wire s' = wire s @ step_frames raw rawsize r" "sent_size r < length raw"
    "sent_size r' = sent_size r + 1"
    "sent_size r' \<noteq> rawsize \<Longrightarrow> raster_inv r'"
    "page_size r' = (if page_size r + 1 = 8192 \<or> sent_size r + 1 = rawsize then 0 else page_size r + 1)"
proof -
  have b: "length (block r) = 64" "block_size r < 60" "page_size r < 8192"
    using assms(2) by (simp_all add: raster_inv_def)
  have m: "page_size r = sent_size r mod 8192" "block_size r = page_size r mod 60"
    using assms(2) by (simp_all add: raster_inv_def)
  show "sent_size r < length raw"
    using assms(1) b by (auto simp: raster_body_def halt_with_def split: if_splits)
  then have inb: "sent_size r < length raw" .
  show "sent_size r' = sent_size r + 1" using raster_body_sent [OF assms(1)] .
  consider (flush) "block_size r + 1 = 60 \<or> page_size r + 1 = 8192 \<or> sent_size r + 1 = rawsize"
    | (quiet) "block_size r + 1 \<noteq> 60" "page_size r + 1 \<noteq> 8192" "sent_size r + 1 \<noteq> rawsize"
    by blast
  then have "wire s' = wire s @ step_frames raw rawsize r \<and>
    (sent_size r' \<noteq> rawsize \<longrightarrow> raster_inv r') \<and>
    page_size r' = (if page_size r + 1 = 8192 \<or> sent_size r + 1 = rawsize then 0 else page_size r + 1)"
  proof cases
    case flush
    from raster_body_flush [OF assms(1) b(1,2) flush]
    have f: "wire s' = wire s @ step_frames raw rawsize r" "sent_size r' = sent_size r + 1"
      "length (block r') = 64" "block_size r' = 0"
      "page_size r' = (if page_size r + 1 = 8192 \<or> sent_size r + 1 = rawsize then 0 else page_size r + 1)"
      by simp_all
    have "raster_inv r'" if "sent_size r' \<noteq> rawsize"
    proof -
      from that f(2) have nf: "sent_size r + 1 \<noteq> rawsize" by simp
      show ?thesis
      proof (cases "page_size r + 1 = 8192")
        case True
        then have "(sent_size r + 1) mod 8192 = 0" using m(1) by (simp add: mod_Suc)
        with True f show ?thesis by (simp add: raster_inv_def)
      next
        case False
        with flush nf have bs: "block_size r + 1 = 60" by simp
        from False m(1) have "(sent_size r + 1) mod 8192 = page_size r + 1" by (simp add: mod_Suc)
        moreover from bs m(2) have "(page_size r + 1) mod 60 = 0" by (simp add: mod_Suc)
        ultimately show ?thesis using False nf f by (simp add: raster_inv_def)
      qed
    qed
    with f show ?thesis by simp
  next
    case quiet
    from raster_body_quiet [OF assms(1) b(1,2) quiet inb]
    have r': "r' = r\<lparr>block := (block r)[4 + block_size r := raw ! sent_size r],
      block_size := block_size r + 1, sent_size := sent_size r + 1, page_size := page_size r + 1\<rparr>"
      and s': "s' = s" by simp_all
    from quiet m(1) have "(sent_size r + 1) mod 8192 = page_size r + 1" by (simp add: mod_Suc)
    moreover from quiet m(2) have "(page_size r + 1) mod 60 = block_size r + 1" by (simp add: mod_Suc)
    ultimately have "raster_inv r'" using b by (simp add: r' raster_inv_def)
    then show ?thesis using quiet by (simp add: s' r' step_frames_def)
  qed
  then show "wire s' = wire s @ step_frames raw rawsize r"
    "sent_size r' \<noteq> rawsize \<Longrightarrow> raster_inv r'"
    "page_size r' = (if page_size r + 1 = 8192 \<or> sent_size r + 1 = rawsize then 0 else page_size r + 1)"
    by simp_all
qed

lemma raster_body_keeps:
  assumes "raster_body raw rawsize r s = (Inr (None, r'), s')"
    "length (block r) = 64" "block_size r < 60"
  shows "length (block r') = 64 \<and> block_size r' < 60"
proof (cases "block_size r + 1 = 60 \<or> page_size r + 1 = 8192 \<or> sent_size r + 1 = rawsize")
  case True
  from raster_body_flush [OF assms True] show ?thesis by simp
next
  case False
  have "sent_size r < length raw"
    using assms by (auto simp: raster_body_def halt_with_def split: if_splits)
  from False raster_body_quiet [OF assms(1,2,3) _ _ _ this] assms(2,3) show ?thesis by auto
qed

lemma length_raster_block_frame:
  "length q \<le> 60 \<Longrightarrow> length (raster_block_frame q) = 64"
  by (simp add: raster_block_frame_def)

lemma frame_payload_raster_block_frame:
  assumes "length q \<le> 60"
  shows "frame_payload (raster_block_frame q) = q"
proof -
  have "unat (of_nat (length q) :: u8) = length q"
    using assms by (simp add: unat_of_nat)
  then show ?thesis
    by (simp add: frame_payload_def raster_block_frame_def)
qed

lemma raster_payloads_append [simp]:
  "raster_payloads (xs @ ys) = raster_payloads xs @ raster_payloads ys"
  by (simp add: raster_payloads_def)

lemma raster_payloads_simps [simp]:
  "raster_payloads [] = []"
  "length q \<le> 60 \<Longrightarrow> raster_payloads (raster_block_frame q # fs) = q @ raster_payloads fs"
  "raster_payloads (raster_end_frame # fs) = raster_payloads fs"
  "raster_payloads (print_page_frame # fs) = raster_payloads fs"
  by (simp_all add: raster_payloads_def length_raster_block_frame frame_payload_raster_block_frame
      raster_end_frame_def print_page_frame_def)

lemma length_pending: "raster_inv r \<Longrightarrow> length (pending r) = block_size r"
  by (auto simp: raster_inv_def pending_def)

lemma raster_block_frame_neq [simp]:
  "raster_block_frame q \<noteq> print_page_frame" "raster_block_frame q \<noteq> raster_end_frame"
  "print_page_frame \<noteq> raster_block_frame q" "raster_end_frame \<noteq> raster_block_frame q"
  "raster_end_frame \<noteq> print_page_frame" "print_page_frame \<noteq> raster_end_frame"
  by (auto simp: raster_block_frame_def print_page_frame_def raster_end_frame_def PRINTER_STX_def)

lemma step_frames_payload:
  assumes "raster_body raw rawsize r s = (Inr (None, r'), s')" "raster_inv r"
  shows "raster_payloads (step_frames raw rawsize r) @ pending r' = pending r @ [raw ! sent_size r]"
proof -
  have b: "length (block r) = 64" "block_size r < 60"
    using assms(2) by (simp_all add: raster_inv_def)
  have l: "length (pending r @ [raw ! sent_size r]) \<le> 60"
    using length_pending [OF assms(2)] b by simp
  show ?thesis
  proof (cases "block_size r + 1 = 60 \<or> page_size r + 1 = 8192 \<or> sent_size r + 1 = rawsize")
    case True
    from raster_body_flush [OF assms(1) b True] have "block_size r' = 0" by simp
    then have "pending r' = []" by (simp add: pending_def)
    with True l show ?thesis by (auto simp: step_frames_def Let_def)
  next
    case False
    have inb: "sent_size r < length raw" using raster_body_step(2) [OF assms] .
    from False raster_body_quiet [OF assms(1) b _ _ _ inb]
    have r': "r' = r\<lparr>block := (block r)[4 + block_size r := raw ! sent_size r],
      block_size := block_size r + 1, sent_size := sent_size r + 1, page_size := page_size r + 1\<rparr>"
      by simp
    have "pending r' = pending r @ [raw ! sent_size r]"
      using pending_store [of "block_size r" "block r" "raw ! sent_size r"] b
      by (simp add: r' pending_def)
    with False show ?thesis by (simp add: step_frames_def)
  qed
qed

lemma raster_loop_unfold:
  assumes "raster_loop raw rawsize r s = (Inr 0, s')"
  obtains r1 s1 where "raster_body raw rawsize r s = (Inr (None, r1), s1)"
    and "if sent_size r1 < rawsize then raster_loop raw rawsize r1 s1 = (Inr 0, s') else s' = s1"
proof -
  obtain res s1 where b: "raster_body raw rawsize r s = (res, s1)"
    by (cases "raster_body raw rawsize r s")
  show ?thesis
  proof (cases res)
    case (Inl h)
    with assms b show ?thesis by (simp add: raster_loop.simps [of raw rawsize r s])
  next
    case (Inr p)
    obtain x r1 where p: "p = (x, r1)" by (cases p)
    show ?thesis
    proof (cases x)
      case None
      with assms b Inr p that [of r1 s1] show ?thesis
        by (simp add: raster_loop.simps [of raw rawsize r s] split: if_splits)
    next
      case (Some rc)
      with b Inr p have "rc = 1" using raster_body_Some by blast
      with assms b Inr p Some show ?thesis
        by (simp add: raster_loop.simps [of raw rawsize r s])
    qed
  qed
qed

lemma raster_loop_trace:
  assumes "raster_loop raw rawsize r s = (Inr 0, s')" "raster_inv r" "sent_size r < rawsize"
  shows "\<exists>body p. wire s' = wire s @ body @ [raster_block_frame p, raster_end_frame, print_page_frame]
      \<and> (\<forall>f\<in>set body. f = print_page_frame \<or>
            (\<exists>q. f = raster_block_frame q \<and> 1 \<le> length q \<and> length q \<le> 60))
      \<and> count_list body print_page_frame = (rawsize - 1) div 8192 - sent_size r div 8192
      \<and> length p = ((rawsize - 1) mod 8192) mod 60 + 1
      \<and> raster_payloads body @ p = pending r @ drop (sent_size r) (take rawsize raw)
      \<and> rawsize \<le> length raw"
  using assms
proof (induction raw rawsize r s rule: raster_loop.induct)
  case (1 raw rawsize r s)
  from "1.prems"(1) obtain r1 s1 where
    body: "raster_body raw rawsize r s = (Inr (None, r1), s1)" and
    rest: "if sent_size r1 < rawsize then raster_loop raw rawsize r1 s1 = (Inr 0, s') else s' = s1"
    by (rule raster_loop_unfold)
  note inv = "1.prems"(2)
  note st = raster_body_step [OF body inv]
  have m: "page_size r = sent_size r mod 8192" "block_size r = page_size r mod 60"
    using inv by (simp_all add: raster_inv_def)
  have bs: "block_size r < 60" using m by simp
  define v where "v = raw ! sent_size r"
  define p where "p = pending r @ [v]"
  have lp: "length p = block_size r + 1" by (simp add: p_def length_pending [OF inv])
  show ?case
  proof (cases "sent_size r1 < rawsize")
    case False
    with st(3) "1.prems"(3) have fin: "sent_size r + 1 = rawsize" by simp
    from False rest have s': "s' = s1" by simp
    have w: "wire s' = wire s @ [] @ [raster_block_frame p, raster_end_frame, print_page_frame]"
      using st(1) fin by (simp add: s' step_frames_def p_def v_def)
    have sz: "sent_size r = rawsize - 1" using fin by simp
    have "take rawsize raw = take (sent_size r) raw @ [v]"
      using st(2) by (simp add: v_def take_Suc_conv_app_nth flip: fin)
    moreover have "length (take (sent_size r) raw) = sent_size r" using st(2) by simp
    ultimately have "drop (sent_size r) (take rawsize raw) = [v]" by simp
    then have pay: "raster_payloads [] @ p = pending r @ drop (sent_size r) (take rawsize raw)"
      by (simp add: p_def)
    have len: "length p = ((rawsize - 1) mod 8192) mod 60 + 1"
      using lp m by (simp add: sz)
    have le: "rawsize \<le> length raw" using st(2) fin by simp
    from w pay len le show ?thesis
      by (intro exI [of _ "[]"] exI [of _ p]) (simp add: sz)
  next
    case True
    with rest have loop1: "raster_loop raw rawsize r1 s1 = (Inr 0, s')" by simp
    from True st(3) have nf: "sent_size r + 1 \<noteq> rawsize" by simp
    from True have "sent_size r1 \<noteq> rawsize" by simp
    then have inv1: "raster_inv r1" by (rule st(4))
    from "1.IH" [OF body [symmetric] refl refl refl True loop1 inv1 True]
    obtain body1 p1 where
      w1: "wire s' = wire s1 @ body1 @ [raster_block_frame p1, raster_end_frame, print_page_frame]"
      and good1: "\<forall>f\<in>set body1. f = print_page_frame \<or>
            (\<exists>q. f = raster_block_frame q \<and> 1 \<le> length q \<and> length q \<le> 60)"
      and cnt1: "count_list body1 print_page_frame = (rawsize - 1) div 8192 - sent_size r1 div 8192"
      and len1: "length p1 = ((rawsize - 1) mod 8192) mod 60 + 1"
      and pay1: "raster_payloads body1 @ p1 = pending r1 @ drop (sent_size r1) (take rawsize raw)"
      and le1: "rawsize \<le> length raw"
      by blast
    define fs where "fs = step_frames raw rawsize r"
    have fs: "fs = (if block_size r + 1 = 60 \<or> page_size r + 1 = 8192 then [raster_block_frame p] else [])
        @ (if page_size r + 1 = 8192 then [print_page_frame] else [])"
      using nf by (simp add: fs_def step_frames_def p_def v_def)
    have w: "wire s' = wire s @ (fs @ body1) @ [raster_block_frame p1, raster_end_frame, print_page_frame]"
      using w1 st(1) by (simp add: fs_def)
    have good: "\<forall>f\<in>set (fs @ body1). f = print_page_frame \<or>
            (\<exists>q. f = raster_block_frame q \<and> 1 \<le> length q \<and> length q \<le> 60)"
      using good1 lp bs by (auto simp: fs)
    have d: "(sent_size r + 1) div 8192 = (if page_size r + 1 = 8192 then sent_size r div 8192 + 1
        else sent_size r div 8192)"
      using m(1) by (simp add: div_Suc mod_Suc)
    have "sent_size r + 1 \<le> rawsize - 1" using True st(3) by simp
    then have mono: "(sent_size r + 1) div 8192 \<le> (rawsize - 1) div 8192"
      by (rule div_le_mono)
    have cnt: "count_list (fs @ body1) print_page_frame = (rawsize - 1) div 8192 - sent_size r div 8192"
      using cnt1 d mono by (auto simp: fs st(3))
    have "raster_payloads fs @ pending r1 = pending r @ [v]"
      using step_frames_payload [OF body inv] by (simp add: fs_def v_def)
    moreover have "v # drop (sent_size r1) (take rawsize raw) = drop (sent_size r) (take rawsize raw)"
      using Cons_nth_drop_Suc [of "sent_size r" "take rawsize raw"] st(2,3) "1.prems"(3)
      by (simp add: v_def)
    ultimately have "(raster_payloads fs @ pending r1) @ drop (sent_size r1) (take rawsize raw)
        = pending r @ drop (sent_size r) (take rawsize raw)"
      by simp
    then have pay: "raster_payloads (fs @ body1) @ p1 = pending r @ drop (sent_size r) (take rawsize raw)"
      using pay1 by simp
    from w good cnt len1 pay le1 show ?thesis by blast
  qed
qed

lemma raster_body_acking:
  assumes "acking s" "length (block r) = 64" "block_size r < 60" "sent_size r < length raw"
  shows "\<exists>r1 s1. raster_body raw rawsize r s = (Inr (None, r1), s1) \<and> acking s1"
proof -
  have rb: "printer_raster_block blk n s0 = (Inr 0, s0\<lparr>wire := wire s0 @
      [out_frame (raster_header blk n) ((n + 4) mod 256) EPSIZE_64]\<rparr>)"
    if "acking s0" "length blk = 64" "n \<le> 60" for blk n s0
    unfolding printer_raster_block_def using that
    by (intro send_ack_acking) (simp_all add: raster_header_def)
  have re: "printer_raster_end s0 = (Inr 0, s0\<lparr>wire := wire s0 @ [out_frame [PRINTER_STX, 0x04] 2 EPSIZE_16]\<rparr>)"
    if "acking s0" for s0
    unfolding printer_raster_end_def using that by (intro send_ack_acking) simp_all
  have pp: "printer_print_page s0 = (Inr 0, s0\<lparr>wire := wire s0 @ [out_frame [0x0C] 1 EPSIZE_1]\<rparr>)"
    if "acking s0" for s0
    unfolding printer_print_page_def using that by (intro send_ack_acking) simp_all
  show ?thesis using assms
    unfolding raster_body_def raster_flush_def
    by (simp add: Let_def andthen_def ret_def rb re pp)
qed

lemma raster_loop_acking:
  assumes "acking s" "raster_inv r" "sent_size r < rawsize" "rawsize \<le> length raw"
  shows "\<exists>s'. raster_loop raw rawsize r s = (Inr 0, s') \<and> acking s'"
  using assms
proof (induction raw rawsize r s rule: raster_loop.induct)
  case (1 raw rawsize r s)
  have b: "length (block r) = 64" "block_size r < 60"
    using "1.prems"(2) by (simp_all add: raster_inv_def)
  have inb: "sent_size r < length raw" using "1.prems"(3,4) by simp
  from raster_body_acking [OF "1.prems"(1) b inb]
  obtain r1 s1 where body: "raster_body raw rawsize r s = (Inr (None, r1), s1)" and a1: "acking s1"
    by blast
  note st = raster_body_step [OF body "1.prems"(2)]
  show ?case
  proof (cases "sent_size r1 < rawsize")
    case True
    then have "raster_inv r1" using st(4) by simp
    from "1.IH" [OF body [symmetric] refl refl refl True a1 this True "1.prems"(4)]
    show ?thesis using body True by (simp add: raster_loop.simps [of raw rawsize r s])
  next
    case False
    with body a1 show ?thesis by (simp add: raster_loop.simps [of raw rawsize r s])
  qed
qed

lemma raster_body_emits:
  assumes "length (block r) = 64" "block_size r < 60"
  shows "emits (raster_body raw rawsize r) (Collect raster_frame_ok)"
proof -
  define blk where "blk = (block r)[4 + block_size r := raw ! sent_size r]"
  define n where "n = block_size r + 1"
  have lb: "length blk = 64" using assms(1) by (simp add: blk_def)
  have n: "1 \<le> n" "n \<le> 60" using assms(2) by (simp_all add: n_def)
  have "out_frame (raster_header blk n) ((n + 4) mod 256) EPSIZE_64 \<in> Collect raster_frame_ok"
    using raster_out_frame [OF lb n(2)] lb n by (auto simp: raster_frame_ok_def)
  then have e1: "emits (printer_raster_block blk (n mod 256)) (Collect raster_frame_ok)"
    using n unfolding printer_raster_block_def by (simp add: emits_send_ack)
  have e2: "emits printer_raster_end (Collect raster_frame_ok)"
    unfolding printer_raster_end_def
    by (rule emits_send_ack) (simp add: raster_end_out_frame raster_frame_ok_def)
  have e3: "emits printer_print_page (Collect raster_frame_ok)"
    unfolding printer_print_page_def
    by (rule emits_send_ack) (simp only: print_page_out_frame, simp add: raster_frame_ok_def)
  have F: "emits (raster_flush rawsize (r\<lparr>block := blk, block_size := n, sent_size := a, page_size := b\<rparr>))
      (Collect raster_frame_ok)" for a b
    unfolding raster_flush_def Let_def
    by (intro emits_andthen emits_if emits_ret e2 e3) (simp add: e1)
  show ?thesis
    unfolding raster_body_def Let_def
    by (intro emits_if emits_halt emits_ret) (simp add: blk_def [symmetric] n_def [symmetric] F del: One_nat_def)
qed

lemma raster_loop_emits:
  assumes "raster_loop raw rawsize r s = (res, s')" "length (block r) = 64" "block_size r < 60"
  shows "\<exists>fs. wire s' = wire s @ fs \<and> (\<forall>f\<in>set fs. raster_frame_ok f)"
  using assms
proof (induction raw rawsize r s rule: raster_loop.induct)
  case (1 raw rawsize r s)
  obtain res1 s1 where body: "raster_body raw rawsize r s = (res1, s1)"
    by (cases "raster_body raw rawsize r s")
  from raster_body_emits [OF "1.prems"(2,3), of raw rawsize] body
  obtain fs1 where f1: "wire s1 = wire s @ fs1" "\<forall>f\<in>set fs1. raster_frame_ok f"
    unfolding emits_def by blast
  have stop: ?case if "s' = s1"
    using f1 that by blast
  show ?case
  proof (cases res1)
    case (Inl h)
    with body "1.prems"(1) have "s' = s1" by (simp add: raster_loop.simps [of raw rawsize r s])
    then show ?thesis by (rule stop)
  next
    case (Inr p)
    obtain x r1 where p: "p = (x, r1)" by (cases p)
    show ?thesis
    proof (cases x)
      case (Some rc)
      with body Inr p "1.prems"(1) have "s' = s1" by (simp add: raster_loop.simps [of raw rawsize r s])
      then show ?thesis by (rule stop)
    next
      case None
      with body Inr p have b: "raster_body raw rawsize r s = (Inr (None, r1), s1)" by simp
      show ?thesis
      proof (cases "sent_size r1 < rawsize")
        case False
        with b "1.prems"(1) have "s' = s1" by (simp add: raster_loop.simps [of raw rawsize r s])
        then show ?thesis by (rule stop)
      next
        case True
        with b "1.prems"(1) have l: "raster_loop raw rawsize r1 s1 = (res, s')"
          by (simp add: raster_loop.simps [of raw rawsize r s])
        from raster_body_keeps [OF b "1.prems"(2,3)]
        have k: "length (block r1) = 64" "block_size r1 < 60" by simp_all
        from "1.IH" [OF b [symmetric] refl refl refl True l k]
        obtain fs2 where "wire s' = wire s1 @ fs2" "\<forall>f\<in>set fs2. raster_frame_ok f" by blast
        with f1 have "wire s' = wire s @ (fs1 @ fs2) \<and> (\<forall>f\<in>set (fs1 @ fs2). raster_frame_ok f)"
          by auto
        then show ?thesis by blast
      qed
    qed
  qed
qed

lemma no_fault_ret: "no_fault (ret x)"
  by (simp add: no_fault_def ret_def)

lemma no_fault_if: "no_fault a \<Longrightarrow> no_fault b \<Longrightarrow> no_fault (if c then a else b)"
  by simp

lemma no_fault_andthen:
  assumes "no_fault m" "\<And>x. no_fault (f x)"
  shows "no_fault (andthen m f)"
  unfolding no_fault_def
proof (intro allI)
  fix s i
  obtain r1 s1 where m: "m s = (r1, s1)" by (cases "m s")
  show "fst (andthen m f s) \<noteq> Inl (Out_of_bounds i)"
  proof (cases r1)
    case (Inl h)
    with assms(1) m have "h \<noteq> Out_of_bounds i" unfolding no_fault_def by (metis fst_conv)
    with Inl m show ?thesis by (simp add: andthen_def)
  next
    case (Inr x)
    with m have "andthen m f s = f x s1" by (simp add: andthen_def)
    with assms(2) [of x] show ?thesis unfolding no_fault_def by simp
  qed
qed

lemma no_fault_recv_ack: "no_fault printer_recv_ack"
  unfolding no_fault_def
proof (intro allI)
  fix s i
  obtain r s' where a: "printer_recv_ack s = (r, s')" by (cases "printer_recv_ack s")
  from printer_recv_ack_cases [OF a] a show "fst (printer_recv_ack s) \<noteq> Inl (Out_of_bounds i)"
    by (auto split: if_splits)
qed

lemma no_fault_send:
  assumes "cnt \<le> epsize_val e" "cnt \<le> length d"
  shows "no_fault (send_to_printer d cnt e)"
  using assms
  by (auto simp: no_fault_def send_to_printer_def Let_def split: option.splits)

lemma no_fault_send_ack:
  assumes "cnt \<le> epsize_val e" "cnt \<le> length d"
  shows "no_fault (andthen (send_to_printer d cnt e) (\<lambda>_. printer_recv_ack))"
  by (intro no_fault_andthen no_fault_send assms no_fault_recv_ack)

lemma raster_body_no_fault:
  assumes "length (block r) = 64" "block_size r < 60" "sent_size r < length raw"
  shows "no_fault (raster_body raw rawsize r)"
proof -
  define blk where "blk = (block r)[4 + block_size r := raw ! sent_size r]"
  define n where "n = block_size r + 1"
  have lb: "length blk = 64" using assms(1) by (simp add: blk_def)
  have n: "1 \<le> n" "n \<le> 60" using assms(2) by (simp_all add: n_def)
  have e1: "no_fault (printer_raster_block blk (n mod 256))"
    unfolding printer_raster_block_def using n lb
    by (intro no_fault_send_ack) (simp_all add: raster_header_def)
  have e2: "no_fault printer_raster_end"
    unfolding printer_raster_end_def by (intro no_fault_send_ack) simp_all
  have e3: "no_fault printer_print_page"
    unfolding printer_print_page_def by (intro no_fault_send_ack) simp_all
  have F: "no_fault (raster_flush rawsize (r\<lparr>block := blk, block_size := n, sent_size := a, page_size := b\<rparr>))"
    for a b
    unfolding raster_flush_def Let_def
    by (intro no_fault_andthen no_fault_if no_fault_ret e2 e3) (simp add: e1)
  show ?thesis
    unfolding raster_body_def Let_def using assms
    by (simp add: blk_def [symmetric] n_def [symmetric] F no_fault_ret del: One_nat_def)
qed

lemma raster_loop_no_fault:
  assumes "length (block r) = 64" "block_size r < 60" "sent_size r < rawsize" "rawsize \<le> length raw"
  shows "fst (raster_loop raw rawsize r s) \<noteq> Inl (Out_of_bounds i)"
  using assms
proof (induction raw rawsize r s rule: raster_loop.induct)
  case (1 raw rawsize r s)
  obtain res1 s1 where body: "raster_body raw rawsize r s = (res1, s1)"
    by (cases "raster_body raw rawsize r s")
  have "sent_size r < length raw" using "1.prems"(3,4) by simp
  from raster_body_no_fault [OF "1.prems"(1,2) this, of rawsize] body
  have nf: "res1 \<noteq> Inl (Out_of_bounds i)" unfolding no_fault_def by (metis fst_conv)
  show ?case
  proof (cases res1)
    case (Inl h)
    with body nf show ?thesis by (simp add: raster_loop.simps [of raw rawsize r s])
  next
    case (Inr p)
    obtain x r1 where p: "p = (x, r1)" by (cases p)
    show ?thesis
    proof (cases x)
      case (Some rc)
      with body Inr p show ?thesis by (simp add: raster_loop.simps [of raw rawsize r s])
    next
      case None
      with body Inr p have b: "raster_body raw rawsize r s = (Inr (None, r1), s1)" by simp
      show ?thesis
      proof (cases "sent_size r1 < rawsize")
        case False
        with b show ?thesis by (simp add: raster_loop.simps [of raw rawsize r s])
      next
        case True
        from raster_body_keeps [OF b "1.prems"(1,2)]
        have k: "length (block r1) = 64" "block_size r1 < 60" by simp_all
        from "1.IH" [OF b [symmetric] refl refl refl True k True "1.prems"(4)] b True
        show ?thesis by (simp add: raster_loop.simps [of raw rawsize r s])
      qed
    qed
  qed
qed

lemma emitted_append: "wire s' = wire s @ fs \<Longrightarrow> emitted s s' = fs"
  by (simp add: emitted_def)

lemma emitted_self [simp]: "emitted s s = []"
  by (simp add: emitted_def)

lemma raster_inv_init:
  "raster_inv \<lparr>sent_size = 0, page_size = 0, block_size = 0, block = replicate 64 0\<rparr>"
  by (simp add: raster_inv_def)

lemma send_raster_trace:
  assumes "printer_send_raster raw rawsize s = (Inr 0, s')" "0 < rawsize"
  shows "\<exists>body p. emitted s s' = body @ [raster_block_frame p, raster_end_frame, print_page_frame]
      \<and> (\<forall>f\<in>set body. f = print_page_frame \<or>
            (\<exists>q. f = raster_block_frame q \<and> 1 \<le> length q \<and> length q \<le> 60))
      \<and> count_list body print_page_frame = (rawsize - 1) div 8192
      \<and> length p = ((rawsize - 1) mod 8192) mod 60 + 1
      \<and> raster_payloads body @ p = take rawsize raw
      \<and> rawsize \<le> length raw"
proof -
  from raster_loop_trace [OF assms(1) [unfolded printer_send_raster_def] raster_inv_init] assms(2)
  obtain body p where
    "wire s' = wire s @ body @ [raster_block_frame p, raster_end_frame, print_page_frame]"
    "\<forall>f\<in>set body. f = print_page_frame \<or>
            (\<exists>q. f = raster_block_frame q \<and> 1 \<le> length q \<and> length q \<le> 60)"
    "count_list body print_page_frame = (rawsize - 1) div 8192"
    "length p = ((rawsize - 1) mod 8192) mod 60 + 1"
    "raster_payloads body @ p = take rawsize raw"
    "rawsize \<le> length raw"
    by (auto simp: pending_def)
  then show ?thesis using emitted_append by blast
qed

lemma send_raster_acking:
  assumes "acking s" "0 < rawsize" "rawsize \<le> length raw"
  shows "\<exists>s'. printer_send_raster raw rawsize s = (Inr 0, s')"
  using raster_loop_acking [OF assms(1) raster_inv_init _ assms(3)] assms(2)
  by (auto simp: printer_send_raster_def)

lemma acking_start: "acking (start (sconst (Some (0, [0x06]))) input)"
  by (simp add: acking_def start_def PRINTER_ACK_def)

lemma mod_pred:
  fixes n k :: nat
  assumes "0 < n" "0 < k"
  shows "(n - 1) mod k + 1 = (if n mod k = 0 then k else n mod k)"
proof -
  from assms(1) obtain m where n: "n = Suc m" by (cases n) auto
  show ?thesis using assms(2) by (auto simp: n mod_Suc)
qed

lemma final_block_length:
  fixes n :: nat
  assumes "0 < n"
  shows "((n - 1) mod 8192) mod 60 + 1 =
    (let l = (if n mod 8192 = 0 then 8192 else n mod 8192)
     in if l mod 60 = 0 then 60 else l mod 60)"
proof -
  define l where "l = (if n mod 8192 = 0 then 8192 else n mod 8192)"
  have l: "(n - 1) mod 8192 + 1 = l" using mod_pred [OF assms, of 8192] by (simp add: l_def)
  then have "0 < l" by simp
  from mod_pred [OF this, of 60] l show ?thesis
    by (simp add: l_def [symmetric] Let_def flip: l)
qed

lemma send_raster_empty:
  "printer_send_raster [] 0 s = (Inl (Out_of_bounds 0), s)"
  "raw \<noteq> [] \<Longrightarrow> printer_send_raster raw 0 s = (Inr 0, s)"
  by (simp_all add: printer_send_raster_def raster_loop.simps raster_body_def halt_with_def ret_def)

section \<open>Claims about the raster transfer\<close>

text \<open>
  C1, as amended: every frame that \<^verbatim>\<open>printer_send_raster\<close> sends, whatever the outcome, is a
  PrintPage, a RasterEnd or a raster block with a payload of 1 to 60 bytes. When the
  transfer of a non-empty pattern succeeds, the payload length of its final block is
  \<open>l mod 60\<close> when that is nonzero, else 60, where \<open>l\<close> is the size of the last page
  (\<open>rawsize mod 8192\<close> when nonzero, else 8192); for patterns of at most 8192 bytes this is
  \<open>rawsize mod 60\<close> when nonzero, else 60.
\<close>

theorem raster_block_sizes:
  assumes "printer_send_raster raw rawsize s = (res, s')"
  shows "(\<forall>f\<in>set (emitted s s'). raster_frame_ok f) \<and>
    (res = Inr 0 \<and> 0 < rawsize \<longrightarrow>
      (\<exists>body p. emitted s s' = body @ [raster_block_frame p, raster_end_frame, print_page_frame] \<and>
         length p = (let l = (if rawsize mod 8192 = 0 then 8192 else rawsize mod 8192)
                     in if l mod 60 = 0 then 60 else l mod 60) \<and>
         (rawsize \<le> 8192 \<longrightarrow> length p = (if rawsize mod 60 = 0 then 60 else rawsize mod 60))))"
proof -
  from raster_loop_emits [OF assms [unfolded printer_send_raster_def]]
  obtain fs where "wire s' = wire s @ fs" "\<forall>f\<in>set fs. raster_frame_ok f" by auto
  then have a: "\<forall>f\<in>set (emitted s s'). raster_frame_ok f" by (simp add: emitted_append)
  have b: "\<exists>body p. emitted s s' = body @ [raster_block_frame p, raster_end_frame, print_page_frame] \<and>
         length p = (let l = (if rawsize mod 8192 = 0 then 8192 else rawsize mod 8192)
                     in if l mod 60 = 0 then 60 else l mod 60) \<and>
         (rawsize \<le> 8192 \<longrightarrow> length p = (if rawsize mod 60 = 0 then 60 else rawsize mod 60))"
    if "res = Inr 0" "0 < rawsize"
  proof -
    from send_raster_trace [OF assms [unfolded that(1)] that(2)]
    obtain body p where
      e: "emitted s s' = body @ [raster_block_frame p, raster_end_frame, print_page_frame]"
      and l: "length p = ((rawsize - 1) mod 8192) mod 60 + 1" by blast
    have "length p = (if rawsize mod 60 = 0 then 60 else rawsize mod 60)" if "rawsize \<le> 8192"
    proof -
      from that \<open>0 < rawsize\<close> have "(rawsize - 1) mod 8192 = rawsize - 1" by simp
      with l mod_pred [OF \<open>0 < rawsize\<close>, of 60] show ?thesis by simp
    qed
    with e l final_block_length [OF that(2)] show ?thesis by auto
  qed
  from a b show ?thesis by blast
qed

theorem raster_block_sizes_witness:
  "fst (printer_send_raster [1, 2, 3] 3 (start (sconst (Some (0, [0x06]))) [])) = Inr 0 \<and>
   list_all raster_frame_ok
     (wire (snd (printer_send_raster [1, 2, 3] 3 (start (sconst (Some (0, [0x06]))) [])))) \<and>
   (\<exists>body p. wire (snd (printer_send_raster [1, 2, 3] 3 (start (sconst (Some (0, [0x06]))) [])))
       = body @ [raster_block_frame p, raster_end_frame, print_page_frame] \<and> length p = 3)"
proof -
  let ?s = "start (sconst (Some (0, [0x06]))) []"
  from send_raster_acking [OF acking_start, of 3 "[1, 2, 3]" "[]"]
  obtain s' where r: "printer_send_raster [1, 2, 3] 3 ?s = (Inr 0, s')" by auto
  have e: "emitted ?s s' = wire s'" by (simp add: emitted_def start_def)
  from raster_block_sizes [OF r] show ?thesis by (simp add: r e list_all_iff)
qed

theorem final_block_counterexample:
  "fst two_page_run = Inr 0 \<and>
   drop (length (wire (snd two_page_run)) - 2) (wire (snd two_page_run))
     = [raster_end_frame, print_page_frame] \<and>
   length (frame_payload (wire (snd two_page_run) ! (length (wire (snd two_page_run)) - 3))) = 1 \<and>
   (8193 :: nat) mod 60 = 33"
proof -
  let ?s = "start (sconst (Some (0, [0x06]))) []"
  from send_raster_acking [OF acking_start, of 8193 "replicate 8193 0" "[]"]
  obtain s' where r: "printer_send_raster (replicate 8193 0) 8193 ?s = (Inr 0, s')" by auto
  have e: "emitted ?s s' = wire s'" by (simp add: emitted_def start_def)
  from send_raster_trace [OF r] obtain body p where
    w: "wire s' = body @ [raster_block_frame p, raster_end_frame, print_page_frame]"
    and l: "length p = 1"
    by (auto simp: e)
  have "wire s' ! (length (wire s') - 3) = raster_block_frame p"
    by (simp add: w nth_append)
  moreover have "frame_payload (raster_block_frame p) = p"
    using l by (simp add: frame_payload_raster_block_frame)
  moreover have "drop (length (wire s') - 2) (wire s') = [raster_end_frame, print_page_frame]"
    by (simp add: w)
  ultimately show ?thesis using l by (simp add: two_page_run_def r)
qed

text \<open>
  C4: a successful transfer of a pattern of \<open>rawsize > 0\<close> bytes sends PrintPage exactly
  \<open>\<lceil>rawsize / 8192\<rceil>\<close> times; and a pass through the loop body leaves the page accumulator
  at 0 when it has sent PrintPage, and one higher when it has not.
\<close>

theorem print_page_count:
  assumes "printer_send_raster raw rawsize s = (Inr 0, s')" "0 < rawsize"
  shows "count_list (emitted s s') print_page_frame = (rawsize + 8191) div 8192 \<and>
    (raster_inv r \<and> raster_body raw rawsize r s0 = (Inr (None, r1), s1) \<longrightarrow>
       page_size r1 = (if print_page_frame \<in> set (emitted s0 s1) then 0 else page_size r + 1))"
proof -
  from send_raster_trace [OF assms] obtain body p where
    e: "emitted s s' = body @ [raster_block_frame p, raster_end_frame, print_page_frame]"
    and c: "count_list body print_page_frame = (rawsize - 1) div 8192" by blast
  from assms(2) obtain m where m: "rawsize = Suc m" by (cases rawsize) auto
  have "(rawsize + 8191) div 8192 = (rawsize - 1) div 8192 + 1" by (simp add: m)
  with e c have a: "count_list (emitted s s') print_page_frame = (rawsize + 8191) div 8192"
    by simp
  have b: "page_size r1 = (if print_page_frame \<in> set (emitted s0 s1) then 0 else page_size r + 1)"
    if "raster_inv r" "raster_body raw rawsize r s0 = (Inr (None, r1), s1)"
  proof -
    note st = raster_body_step [OF that(2,1)]
    have "emitted s0 s1 = step_frames raw rawsize r" using st(1) by (rule emitted_append)
    moreover have "print_page_frame \<in> set (step_frames raw rawsize r)
        \<longleftrightarrow> page_size r + 1 = 8192 \<or> sent_size r + 1 = rawsize"
      by (auto simp: step_frames_def Let_def)
    ultimately show ?thesis using st(5) by simp
  qed
  from a b show ?thesis by blast
qed

theorem print_page_count_witness:
  "count_list (wire (snd (printer_send_raster [1, 2, 3] 3 (start (sconst (Some (0, [0x06]))) []))))
     print_page_frame = 1 \<and>
   page_size (snd (projr (fst (raster_body [1, 2, 3] 3
       \<lparr>sent_size = 0, page_size = 0, block_size = 0, block = replicate 64 0\<rparr>
       (start (sconst (Some (0, [0x06]))) []))))) = 1"
proof -
  let ?s = "start (sconst (Some (0, [0x06]))) []"
  let ?r = "\<lparr>sent_size = 0, page_size = 0, block_size = 0, block = replicate 64 0\<rparr>"
  from send_raster_acking [OF acking_start, of 3 "[1, 2, 3]" "[]"]
  obtain s' where r: "printer_send_raster [1, 2, 3] 3 ?s = (Inr 0, s')" by auto
  have e: "emitted ?s s' = wire s'" by (simp add: emitted_def start_def)
  have b: "raster_body [1, 2, 3] 3 ?r ?s = (Inr (None, ?r\<lparr>block := (replicate 64 0)[4 := 1],
      block_size := 1, sent_size := 1, page_size := 1\<rparr>), ?s)"
    by (simp add: raster_body_def ret_def)
  from print_page_count [OF r, of ?r ?s _ ?s] raster_inv_init b
  show ?thesis by (simp add: r e print_page_frame_def)
qed

text \<open>
  C5, as amended: a successful transfer of a pattern of at least one byte sends RasterEnd
  exactly once: the last three frames are a raster block, RasterEnd and PrintPage, and the
  frames before them are raster blocks and PrintPage commands only. A transfer with
  \<open>rawsize = 0\<close> sends no RasterEnd: it sends nothing, whatever the buffer.
\<close>

theorem raster_end_once:
  assumes "printer_send_raster raw rawsize s = (Inr 0, s')" "0 < rawsize"
  shows "count_list (emitted s s') raster_end_frame = 1 \<and>
    (\<exists>body p. emitted s s' = body @ [raster_block_frame p, raster_end_frame, print_page_frame] \<and>
       1 \<le> length p \<and> length p \<le> 60 \<and>
       (\<forall>f\<in>set body. f = print_page_frame \<or>
          (\<exists>q. f = raster_block_frame q \<and> 1 \<le> length q \<and> length q \<le> 60))) \<and>
    emitted s (snd (printer_send_raster raw0 0 s)) = [] \<and>
    count_list (emitted s (snd (printer_send_raster raw0 0 s))) raster_end_frame = 0"
proof -
  have z: "snd (printer_send_raster raw0 0 s) = s"
    by (cases "raw0 = []") (simp_all add: send_raster_empty)
  from send_raster_trace [OF assms] obtain body p where
    e: "emitted s s' = body @ [raster_block_frame p, raster_end_frame, print_page_frame]"
    and g: "\<forall>f\<in>set body. f = print_page_frame \<or>
          (\<exists>q. f = raster_block_frame q \<and> 1 \<le> length q \<and> length q \<le> 60)"
    and l: "length p = ((rawsize - 1) mod 8192) mod 60 + 1" by blast
  from g have "raster_end_frame \<notin> set body" by auto
  then have "count_list body raster_end_frame = 0" by (simp add: count_list_0_iff)
  with e have "count_list (emitted s s') raster_end_frame = 1" by simp
  moreover have "1 \<le> length p" "length p \<le> 60" using l by simp_all
  ultimately have "count_list (emitted s s') raster_end_frame = 1 \<and>
    (\<exists>body p. emitted s s' = body @ [raster_block_frame p, raster_end_frame, print_page_frame] \<and>
       1 \<le> length p \<and> length p \<le> 60 \<and>
       (\<forall>f\<in>set body. f = print_page_frame \<or>
          (\<exists>q. f = raster_block_frame q \<and> 1 \<le> length q \<and> length q \<le> 60)))"
    using e g by blast
  then show ?thesis by (simp add: z)
qed

theorem raster_end_once_witness:
  "count_list (wire (snd (printer_send_raster [1, 2, 3] 3 (start (sconst (Some (0, [0x06]))) []))))
     raster_end_frame = 1"
proof -
  let ?s = "start (sconst (Some (0, [0x06]))) []"
  from send_raster_acking [OF acking_start, of 3 "[1, 2, 3]" "[]"]
  obtain s' where r: "printer_send_raster [1, 2, 3] 3 ?s = (Inr 0, s')" by auto
  have e: "emitted ?s s' = wire s'" by (simp add: emitted_def start_def)
  from raster_end_once [OF r] show ?thesis by (simp add: r e)
qed

theorem no_raster_end_counterexample:
  "fst (printer_send_raster [0] 0 (start (sconst (Some (0, [0x06]))) [])) = Inr 0 \<and>
   count_list (wire (snd (printer_send_raster [0] 0 (start (sconst (Some (0, [0x06]))) []))))
     raster_end_frame = 0 \<and>
   wire (start (sconst (Some (0, [0x06]))) []) = []"
  by (simp add: send_raster_empty start_def)

text \<open>
  C10, as amended: the loop body runs once even for \<open>rawsize = 0\<close> and reads index 0 of the
  pattern: outside the empty buffer; where a byte can be read there, the call returns 0 and
  has sent nothing. With \<open>1 \<le> rawsize \<le> length raw\<close> no access leaves an array, and the
  payloads of a successful transfer are the first \<open>rawsize\<close> bytes of the pattern, in order.
\<close>

theorem send_raster_precondition:
  "printer_send_raster [] 0 s = (Inl (Out_of_bounds 0), s) \<and>
   (raw \<noteq> [] \<longrightarrow> printer_send_raster raw 0 s = (Inr 0, s)) \<and>
   (1 \<le> rawsize \<and> rawsize \<le> length raw \<longrightarrow>
      fst (printer_send_raster raw rawsize s) \<noteq> Inl (Out_of_bounds i)) \<and>
   (1 \<le> rawsize \<and> printer_send_raster raw rawsize s = (Inr 0, s') \<longrightarrow>
      raster_payloads (emitted s s') = take rawsize raw)"
proof -
  have "fst (printer_send_raster raw rawsize s) \<noteq> Inl (Out_of_bounds i)"
    if "1 \<le> rawsize" "rawsize \<le> length raw"
    unfolding printer_send_raster_def using that
    by (intro raster_loop_no_fault) simp_all
  moreover have "raster_payloads (emitted s s') = take rawsize raw"
    if "1 \<le> rawsize" "printer_send_raster raw rawsize s = (Inr 0, s')"
  proof -
    from that(1) have "0 < rawsize" by simp
    from send_raster_trace [OF that(2) this] obtain body p where
      e: "emitted s s' = body @ [raster_block_frame p, raster_end_frame, print_page_frame]"
      and l: "length p = ((rawsize - 1) mod 8192) mod 60 + 1"
      and p: "raster_payloads body @ p = take rawsize raw" by blast
    from l have "length p \<le> 60" by simp
    with e p show ?thesis by simp
  qed
  ultimately show ?thesis using send_raster_empty by blast
qed

theorem send_raster_precondition_witness:
  "printer_send_raster [7] 0 (start (sconst (Some (0, [0x06]))) [])
     = (Inr 0, start (sconst (Some (0, [0x06]))) []) \<and>
   fst (printer_send_raster [1, 2, 3] 3 (start (sconst (Some (0, [0x06]))) [])) = Inr 0 \<and>
   raster_payloads (wire (snd (printer_send_raster [1, 2, 3] 3
       (start (sconst (Some (0, [0x06]))) [])))) = [1, 2, 3]"
proof -
  let ?s = "start (sconst (Some (0, [0x06]))) []"
  from send_raster_acking [OF acking_start, of 3 "[1, 2, 3]" "[]"]
  obtain s' where r: "printer_send_raster [1, 2, 3] 3 ?s = (Inr 0, s')" by auto
  have e: "emitted ?s s' = wire s'" by (simp add: emitted_def start_def)
  from send_raster_precondition [of ?s "[7]"] send_raster_precondition [of ?s "[1, 2, 3]" 3 _ s']
  show ?thesis by (simp add: r e)
qed

theorem empty_pattern_counterexample:
  "wire (snd (printer_send_raster [] 0 (start (sconst (Some (0, [0x06]))) []))) = [] \<and>
   printer_send_raster [0] 0 (start (sconst (Some (0, [0x06]))) [])
     = (Inr 0, start (sconst (Some (0, [0x06]))) []) \<and>
   wire (start (sconst (Some (0, [0x06]))) []) = []"
  by (simp add: send_raster_empty start_def)

section \<open>The job sequence\<close>

lemma andthen_assoc: "andthen (andthen m f) g = andthen m (\<lambda>x. andthen (f x) g)"
  by (rule ext) (simp add: andthen_def split: prod.splits sum.splits)

lemma andthen_ret [simp]: "andthen (ret x) f = f x"
  by (rule ext) (simp add: andthen_def ret_def)

lemma andthen_ret_right [simp]: "andthen m ret = m"
  by (rule ext) (simp add: andthen_def ret_def split: prod.splits sum.splits)

lemma main_print_chain:
  "andthen (latch False printer_prejob) (\<lambda>need_cancel.
   andthen (latch need_cancel (\<lambda>s. printer_check_tape (opt_tape s) s)) (\<lambda>need_cancel.
   andthen (latch need_cancel printer_reset) (\<lambda>need_cancel.
   andthen (latch need_cancel printer_set_speed) (\<lambda>need_cancel.
   andthen (latch need_cancel (\<lambda>s. printer_set_margin (opt_margin s) s)) (\<lambda>need_cancel.
   andthen (latch need_cancel (\<lambda>s. printer_set_density (opt_density s) s)) (\<lambda>need_cancel.
   andthen (latch need_cancel (\<lambda>s. printer_set_cutter (opt_cutter s) s)) (\<lambda>need_cancel.
   andthen (latch need_cancel printer_check_status) (\<lambda>need_cancel.
   andthen (latch need_cancel (\<lambda>s. printer_send_raster (pattern s) (pattern_size s) s))
     (\<lambda>need_cancel. k)))))))))
   = andthen (latched False job_steps) (\<lambda>_. k)"
  by (simp add: job_steps_def andthen_assoc)

lemma latched_True: "latched True steps = ret True"
  by (induction steps) (simp_all add: latch_def)

lemma latched_append:
  "latched nc (xs @ ys) = andthen (latched nc xs) (\<lambda>nc'. latched nc' ys)"
  by (induction xs arbitrary: nc) (simp_all add: andthen_assoc)

lemma latched_fail:
  assumes "latched False before s1 = (Inr False, s2)" "step s2 = (Inr rc, s3)" "rc \<noteq> 0"
  shows "latched False (before @ step # after) s1 = (Inr True, s3)"
  using assms
  by (simp add: latched_append latched_True andthen_def latch_def ret_def)

lemma status_out_frame: "out_frame [PRINTER_STX, 0x1D] 2 EPSIZE_16 = status_check_frame"
  by (simp add: out_frame_def status_check_frame_def KLG2_EPSIZE_def)

lemma reset_out_frame: "out_frame [0x02, 0x01] 2 EPSIZE_16 = reset_frame"
  by (simp add: out_frame_def reset_frame_def KLG2_EPSIZE_def)

lemma cancel_out_frame: "out_frame [0x18] 1 EPSIZE_1 = cancel_job_frame"
  by (simp add: out_frame_def cancel_job_frame_def KLG2_EPSIZE_def)

lemma send_ack_Inr_state:
  assumes "andthen (send_to_printer d cnt e) (\<lambda>_. printer_recv_ack) s = (Inr rc, s')"
  shows "s' = s\<lparr>wire := wire s @ [out_frame d cnt e], usb_out := stl (usb_out s),
      usb_in := stl (usb_in s)\<rparr>"
proof -
  from assms obtain x s1 where a: "send_to_printer d cnt e s = (Inr x, s1)"
    and b: "printer_recv_ack s1 = (Inr rc, s')"
    unfolding andthen_Inr by blast
  from send_to_printer_Inr [OF a] printer_recv_ack_cases [OF b]
  show ?thesis by (auto split: if_splits)
qed

lemma printer_check_status_Inr:
  assumes "printer_check_status s = (Inr rc, s')"
  shows "s' = s\<lparr>wire := wire s @ [status_check_frame], usb_out := stl (usb_out s),
      usb_in := stl (usb_in s)\<rparr>"
proof -
  from assms obtain x s1 rsp s2 where a: "send_to_printer [PRINTER_STX, 0x1D] 2 EPSIZE_16 s = (Inr x, s1)"
    and b: "recv_from_printer s1 = (Inr rsp, s2)" and c: "s' = s2"
    unfolding printer_check_status_def andthen_Inr by (auto simp: ret_def split: if_splits)
  from send_to_printer_Inr [OF a] recv_from_printer_cases [OF b] c
  show ?thesis by (auto simp: status_out_frame split: if_splits)
qed

lemma printer_reset_Inr:
  assumes "printer_reset s = (Inr rc, s')"
  shows "s' = s\<lparr>wire := wire s @ [reset_frame], usb_out := stl (usb_out s),
      usb_in := stl (usb_in s)\<rparr>"
  using send_ack_Inr_state [OF assms [unfolded printer_reset_def]] by (simp add: reset_out_frame)

lemma single_command_Inr:
  assumes "andthen (andthen (send_to_printer [c] 1 EPSIZE_1) (\<lambda>_. printer_recv_ack)) (\<lambda>_. ret 0) s
     = (Inr rc, s')"
  shows "rc = 0 \<and> wire s' = wire s @ [[c]]"
proof -
  from assms obtain x where
    "andthen (send_to_printer [c] 1 EPSIZE_1) (\<lambda>_. printer_recv_ack) s = (Inr x, s')" and "rc = 0"
    unfolding andthen_Inr [of _ "\<lambda>_. ret 0"] by (auto simp: ret_def)
  moreover have "out_frame [c] 1 EPSIZE_1 = [c]" by (simp add: out_frame_def KLG2_EPSIZE_def)
  ultimately show ?thesis using send_ack_Inr [of "[c]" 1 EPSIZE_1 s x s'] by simp
qed

lemma main_preamble:
  assumes "main s = (Inr rc, s')"
  obtains a b s2 where "printer_check_status s = (Inr a, s\<lparr>wire := wire s @ [status_check_frame],
        usb_out := stl (usb_out s), usb_in := stl (usb_in s)\<rparr>)"
    and "s2 = s\<lparr>wire := wire s @ [status_check_frame, reset_frame],
        usb_out := stl (stl (usb_out s)), usb_in := stl (stl (usb_in s))\<rparr>"
    and "printer_reset (s\<lparr>wire := wire s @ [status_check_frame],
        usb_out := stl (usb_out s), usb_in := stl (usb_in s)\<rparr>) = (Inr b, s2)"
    and "(case opt_operation s of
          OPERATION_FEED \<Rightarrow> andthen printer_tape_feed (\<lambda>_. ret 0)
        | OPERATION_CUT \<Rightarrow> andthen printer_tape_cut (\<lambda>_. ret 0)
        | OPERATION_HALFCUT \<Rightarrow> andthen printer_tape_halfcut (\<lambda>_. ret 0)
        | OPERATION_PRINT \<Rightarrow>
            andthen load_image (\<lambda>rc.
              if rc \<noteq> 0 then ret 1
              else andthen (latched False job_steps) (\<lambda>_. andthen printer_cancel_job (\<lambda>_. ret 0))))
       s2 = (Inr rc, s')"
proof -
  from assms obtain a s1 b s2 where
    A: "printer_check_status s = (Inr a, s1)" and B: "printer_reset s1 = (Inr b, s2)"
    and C: "(case opt_operation s2 of
          OPERATION_FEED \<Rightarrow> andthen printer_tape_feed (\<lambda>_. ret 0)
        | OPERATION_CUT \<Rightarrow> andthen printer_tape_cut (\<lambda>_. ret 0)
        | OPERATION_HALFCUT \<Rightarrow> andthen printer_tape_halfcut (\<lambda>_. ret 0)
        | OPERATION_PRINT \<Rightarrow>
            andthen load_image (\<lambda>rc.
              if rc \<noteq> 0 then ret 1
              else andthen (latched False job_steps) (\<lambda>_. andthen printer_cancel_job (\<lambda>_. ret 0))))
       s2 = (Inr rc, s')"
    unfolding main_def main_print_chain andthen_Inr by blast
  note s1 = printer_check_status_Inr [OF A]
  note s2 = printer_reset_Inr [OF B]
  have e: "s2 = s\<lparr>wire := wire s @ [status_check_frame, reset_frame],
        usb_out := stl (stl (usb_out s)), usb_in := stl (stl (usb_in s))\<rparr>"
    by (simp add: s2 s1)
  have o: "opt_operation s2 = opt_operation s" by (simp add: s2 s1)
  show ?thesis
    by (rule that [OF A [unfolded s1] e B [unfolded s1] C [unfolded o]])
qed

lemma emits_weaken: "emits m A \<Longrightarrow> A \<subseteq> B \<Longrightarrow> emits m B"
  unfolding emits_def by blast

lemma emits_reader: "(\<And>x. emits (f x) A) \<Longrightarrow> emits (\<lambda>s. f (g s) s) A"
  unfolding emits_def by blast

lemma emits_send:
  assumes "out_frame d cnt e \<in> A"
  shows "emits (send_to_printer d cnt e) A"
  unfolding emits_def
proof (intro allI impI)
  fix s r s'
  assume "send_to_printer d cnt e s = (r, s')"
  from send_to_printer_cases [OF this]
  have "wire s' = wire s @ [] \<or> wire s' = wire s @ [out_frame d cnt e]" by auto
  with assms show "\<exists>fs. wire s' = wire s @ fs \<and> set fs \<subseteq> A"
    by (metis empty_set empty_subsetI insert_subset list.simps(15))
qed

lemma emits_recv: "emits recv_from_printer A"
  unfolding emits_def
proof (intro allI impI)
  fix s r s'
  assume "recv_from_printer s = (r, s')"
  from recv_from_printer_cases [OF this] have "wire s' = wire s @ []" by auto
  then show "\<exists>fs. wire s' = wire s @ fs \<and> set fs \<subseteq> A" by (metis empty_set empty_subsetI)
qed

lemma length_out_frame:
  "cnt \<le> length d \<Longrightarrow> cnt \<le> 64 \<Longrightarrow> length (out_frame d cnt e) = epsize_val e"
  by (cases e) (simp_all add: out_frame_def KLG2_EPSIZE_def)

lemma out_frame_16_not_cancel:
  "cnt \<le> length d \<Longrightarrow> cnt \<le> 64 \<Longrightarrow> out_frame d cnt EPSIZE_16 \<noteq> cancel_job_frame"
  using length_out_frame [of cnt d EPSIZE_16] by (auto simp: cancel_job_frame_def)

lemma raster_frame_not_cancel: "raster_frame_ok f \<Longrightarrow> f \<noteq> cancel_job_frame"
  by (auto simp: raster_frame_ok_def cancel_job_frame_def print_page_frame_def
      raster_end_frame_def raster_block_frame_def)

lemma send_raster_emits: "emits (printer_send_raster raw rawsize) (Collect raster_frame_ok)"
  unfolding emits_def printer_send_raster_def
proof (intro allI impI)
  fix s r s'
  assume "raster_loop raw rawsize
      \<lparr>sent_size = 0, page_size = 0, block_size = 0, block = replicate 64 0\<rparr> s = (r, s')"
  from raster_loop_emits [OF this]
  show "\<exists>fs. wire s' = wire s @ fs \<and> set fs \<subseteq> Collect raster_frame_ok"
    by auto
qed

lemma job_steps_emit:
  assumes "step \<in> set job_steps"
  shows "emits step {f. f \<noteq> cancel_job_frame}"
proof -
  note sa = emits_send_ack [of _ _ EPSIZE_16 "{f. f \<noteq> cancel_job_frame}"]
  have 1: "emits printer_prejob {f. f \<noteq> cancel_job_frame}"
    unfolding printer_prejob_def
    by (intro emits_andthen emits_if emits_ret emits_send emits_recv)
      (simp_all add: out_frame_16_not_cancel printer_recv_ack_def emits_andthen emits_recv emits_ret)
  have 2: "emits (printer_check_tape t) {f. f \<noteq> cancel_job_frame}" for t
    unfolding printer_check_tape_def Let_def by (rule sa) (simp add: out_frame_16_not_cancel)
  have 3: "emits printer_reset {f. f \<noteq> cancel_job_frame}"
    unfolding printer_reset_def by (rule sa) (simp add: out_frame_16_not_cancel)
  have 4: "emits printer_set_speed {f. f \<noteq> cancel_job_frame}"
    unfolding printer_set_speed_def by (rule sa) (simp add: out_frame_16_not_cancel)
  have 5: "emits (printer_set_margin m) {f. f \<noteq> cancel_job_frame}" for m
    unfolding printer_set_margin_def Let_def by (rule sa) (simp add: out_frame_16_not_cancel)
  have 6: "emits (printer_set_density d) {f. f \<noteq> cancel_job_frame}" for d
    unfolding printer_set_density_def Let_def by (rule sa) (simp add: out_frame_16_not_cancel)
  have 7: "emits (printer_set_cutter c) {f. f \<noteq> cancel_job_frame}" for c
    unfolding printer_set_cutter_def Let_def by (rule sa) (simp add: out_frame_16_not_cancel)
  have 8: "emits printer_check_status {f. f \<noteq> cancel_job_frame}"
    unfolding printer_check_status_def
    by (intro emits_andthen emits_if emits_ret emits_send emits_recv)
      (simp add: out_frame_16_not_cancel)
  have 9: "emits (printer_send_raster raw n) {f. f \<noteq> cancel_job_frame}" for raw n
    by (rule emits_weaken [OF send_raster_emits]) (auto dest: raster_frame_not_cancel)
  from assms 1 2 3 4 5 6 7 8 9 show ?thesis
    by (auto simp: job_steps_def intro: emits_reader [where f = printer_check_tape]
        emits_reader [where f = printer_set_margin] emits_reader [where f = printer_set_density]
        emits_reader [where f = printer_set_cutter]
        emits_reader [where f = "\<lambda>(raw, n). printer_send_raster raw n" and g = "\<lambda>s. (pattern s, pattern_size s)", simplified])
qed

lemma latched_emits:
  assumes "\<forall>step\<in>set steps. emits step A"
  shows "emits (latched nc steps) A"
  using assms
  by (induction steps arbitrary: nc)
    (auto simp: latch_def intro!: emits_andthen emits_ret)

lemma fin_only_trans:
  "s1 = s\<lparr>fin := a\<rparr> \<Longrightarrow> s2 = s1\<lparr>fin := b\<rparr> \<Longrightarrow> s2 = s\<lparr>fin := b\<rparr>"
  by simp

lemma getc_fin: "getc s = (c, s') \<Longrightarrow> s' = s\<lparr>fin := fin s'\<rparr>"
  by (auto simp: getc_def split: list.splits)

lemma skip_line_eof: "0x0A \<notin> set (fin s) \<Longrightarrow> skip_line s = None"
proof (induction arbitrary: s rule: skip_line.fixp_induct)
  case 1
  show ?case by (auto simp: ccpo.admissible_def fun_lub_def flat_lub_def)
next
  case 2
  show ?case by simp
next
  case (3 f)
  then show ?case by (cases "fin s") (auto simp: getc_def)
qed

lemma skip_line_fin:
  assumes "skip_line s = Some s'"
  shows "s' = s\<lparr>fin := fin s'\<rparr>"
proof (rule skip_line.raw_induct [where P = "\<lambda>s s'. s' = s\<lparr>fin := fin s'\<rparr>", OF _ assms])
  fix f :: "world \<Rightarrow> world option" and s s'
  assume ih: "\<And>x y. f x = Some y \<Longrightarrow> y = x\<lparr>fin := fin y\<rparr>"
    and st: "(case getc s of (c, s1) \<Rightarrow>
        if (word_of_int c :: u8) \<noteq> 0x0A then f s1 else Some s1) = Some s'"
  obtain c s1 where g: "getc s = (c, s1)" by (cases "getc s")
  note a = getc_fin [OF g]
  show "s' = s\<lparr>fin := fin s'\<rparr>"
  proof (cases "(word_of_int c :: u8) \<noteq> 0x0A")
    case True
    with st g have "f s1 = Some s'" by simp
    from fin_only_trans [OF a ih [OF this]] show ?thesis .
  next
    case False
    with st g a show ?thesis by simp
  qed
qed

lemma skip_comments_fin:
  assumes "skip_comments ch s = Some r"
  shows "snd r = s\<lparr>fin := fin (snd r)\<rparr>"
proof (rule skip_comments.raw_induct [where P = "\<lambda>ch s r. snd r = s\<lparr>fin := fin (snd r)\<rparr>", OF _ assms])
  fix f :: "u8 \<Rightarrow> world \<Rightarrow> (u8 \<times> world) option" and ch s r
  assume ih: "\<And>ch s r. f ch s = Some r \<Longrightarrow> snd r = s\<lparr>fin := fin (snd r)\<rparr>"
    and st: "(if ch = 0x23 then
        Option.bind (skip_line s) (\<lambda>s1. case getc s1 of (c, s2) \<Rightarrow> f (word_of_int c) s2)
      else Some (ch, s)) = Some r"
  show "snd r = s\<lparr>fin := fin (snd r)\<rparr>"
  proof (cases "ch = 0x23")
    case True
    with st obtain s1 where l: "skip_line s = Some s1"
      and b: "(case getc s1 of (c, s2) \<Rightarrow> f (word_of_int c) s2) = Some r"
      by (auto simp: bind_eq_Some_conv)
    obtain c s2 where g: "getc s1 = (c, s2)" by (cases "getc s1")
    with b have "f (word_of_int c) s2 = Some r" by simp
    from fin_only_trans [OF fin_only_trans [OF skip_line_fin [OF l] getc_fin [OF g]] ih [OF this]]
    show ?thesis .
  next
    case False
    with st show ?thesis by auto
  qed
qed

lemma fscanf_size_fin: "fscanf_size s = (r, s') \<Longrightarrow> s' = s\<lparr>fin := fin s'\<rparr>"
  by (auto simp: fscanf_size_def split: prod.splits sum.splits option.splits)

lemma read_header_fin:
  assumes "read_header s = (r, s')"
  shows "s' = s\<lparr>fin := fin s'\<rparr>"
proof -
  obtain c1 s1 where g1: "getc s = (c1, s1)" by (cases "getc s")
  obtain c2 s2 where g2: "getc s1 = (c2, s2)" by (cases "getc s1")
  obtain c3 s3 where g3: "getc s2 = (c3, s3)" by (cases "getc s2")
  obtain c4 s4 where g4: "getc s3 = (c4, s4)" by (cases "getc s3")
  note f1 = getc_fin [OF g1]
  note f2 = fin_only_trans [OF f1 getc_fin [OF g2]]
  note f3 = fin_only_trans [OF f2 getc_fin [OF g3]]
  note f4 = fin_only_trans [OF f3 getc_fin [OF g4]]
  note u = assms [unfolded read_header_def g1 g2 g3 g4 prod.case]
  show ?thesis
  proof (cases "c1 \<noteq> 0x50 \<or> c2 \<noteq> 0x34 \<or> c3 \<noteq> 0x0A")
    case True
    with u f1 f2 f3 show ?thesis by (auto split: if_splits)
  next
    case False
    show ?thesis
    proof (cases "skip_comments (word_of_int c4) s4")
      case None
      with u False f4 show ?thesis by auto
    next
      case (Some p)
      obtain ch s5 where p: "p = (ch, s5)" by (cases p)
      from skip_comments_fin [OF Some] p have f5: "s5 = s4\<lparr>fin := fin s5\<rparr>" by simp
      have f6: "ungetc ch s5 = s5\<lparr>fin := ch # fin s5\<rparr>" by (simp add: ungetc_def)
      from u False Some p have "fscanf_size (ungetc ch s5) = (r, s')" by simp
      from fin_only_trans [OF fin_only_trans [OF fin_only_trans [OF f4 f5] f6] fscanf_size_fin [OF this]]
      show ?thesis .
    qed
  qed
qed

lemma read_header_wire: "read_header s = (r, s') \<Longrightarrow> wire s' = wire s"
  using read_header_fin [of s r s'] by (cases s', cases s) simp

lemma read_header_plain:
  "fin s = 0x50 # 0x34 # 0x0A # c # cs \<Longrightarrow> c \<noteq> 0x23 \<Longrightarrow>
     read_header s = fscanf_size (s\<lparr>fin := c # cs\<rparr>)"
  by (simp add: read_header_def getc_def skip_comments.simps ungetc_def)

lemma read_rows_wire: "read_rows i img_h pad_h img_w s = (r, s') \<Longrightarrow> wire s' = wire s"
proof (induction i img_h pad_h img_w s rule: read_rows.induct)
  case (1 i img_h pad_h img_w s)
  show ?case
  proof (cases "i < img_h")
    case False
    with "1.prems" show ?thesis by (simp add: read_rows.simps [of i])
  next
    case True
    define s1 where "s1 = s\<lparr>image_stripes := (image_stripes s)
                     [i + pad_h := take img_w (fin s) @ drop (length (take img_w (fin s))) (image_stripes s ! (i + pad_h))],
                   fin := drop img_w (fin s)\<rparr>"
    show ?thesis
    proof (cases "img_w = 0 \<or> length (take img_w (fin s)) < img_w")
      case stop: True
      with True "1.prems" have "s' = s1"
        by (simp add: read_rows.simps [of i] Let_def s1_def)
      then show ?thesis by (simp add: s1_def)
    next
      case go: False
      with True "1.prems" have "read_rows (i + 1) img_h pad_h img_w s1 = (r, s')"
        by (simp add: read_rows.simps [of i] Let_def s1_def)
      from "1.IH" [OF True refl refl] go this
      show ?thesis by (simp add: s1_def)
    qed
  qed
qed

lemma load_image_wire: "load_image s = (r, s') \<Longrightarrow> wire s' = wire s"
  unfolding load_image_def
  by (auto simp: Let_def split: option.splits prod.splits sum.splits if_splits
      dest!: read_rows_wire read_header_wire)

lemma emitsD:
  "emits m A \<Longrightarrow> m s = (r, s') \<Longrightarrow> \<exists>fs. wire s' = wire s @ fs \<and> set fs \<subseteq> A"
  unfolding emits_def by blast

lemma main_after_failure:
  assumes "opt_operation s = OPERATION_PRINT"
    and "andthen printer_check_status (\<lambda>_. andthen printer_reset (\<lambda>_. load_image)) s = (Inr 0, s1)"
    and "job_steps = before @ step # after"
    and "latched False before s1 = (Inr False, s2)"
    and "step s2 = (Inr rc, s3)" and "rc \<noteq> 0"
  shows "main s = andthen printer_cancel_job (\<lambda>_. ret 0) s3"
    and "\<exists>fs. wire s3 = wire s @ fs \<and> cancel_job_frame \<notin> set fs"
proof -
  from assms(2) obtain a sa b sb where
    A: "printer_check_status s = (Inr a, sa)" and B: "printer_reset sa = (Inr b, sb)"
    and L: "load_image sb = (Inr 0, s1)"
    unfolding andthen_Inr by blast
  note sa = printer_check_status_Inr [OF A]
  note sb = printer_reset_Inr [OF B]
  have o: "opt_operation sb = OPERATION_PRINT" using assms(1) by (simp add: sa sb)
  have J: "latched False job_steps s1 = (Inr True, s3)"
    unfolding assms(3) using assms(4,5,6) by (rule latched_fail)
  show "main s = andthen printer_cancel_job (\<lambda>_. ret 0) s3"
    unfolding main_def main_print_chain
    by (simp add: andthen_def A B o L J)
  have w1: "wire s1 = wire s @ [status_check_frame, reset_frame]"
    using load_image_wire [OF L] by (simp add: sa sb)
  have "set before \<subseteq> set job_steps" "step \<in> set job_steps" by (auto simp: assms(3))
  then have e1: "emits (latched False before) {f. f \<noteq> cancel_job_frame}"
    and e2: "emits step {f. f \<noteq> cancel_job_frame}"
    by (auto intro!: latched_emits job_steps_emit)
  from emitsD [OF e1 assms(4)] obtain fs1 where
    f1: "wire s2 = wire s1 @ fs1" "set fs1 \<subseteq> {f. f \<noteq> cancel_job_frame}" by blast
  from emitsD [OF e2 assms(5)] obtain fs2 where
    f2: "wire s3 = wire s2 @ fs2" "set fs2 \<subseteq> {f. f \<noteq> cancel_job_frame}" by blast
  have n: "cancel_job_frame \<noteq> status_check_frame" "cancel_job_frame \<noteq> reset_frame"
    by (simp_all add: cancel_job_frame_def status_check_frame_def reset_frame_def)
  have "cancel_job_frame \<notin> set fs1" "cancel_job_frame \<notin> set fs2" using f1(2) f2(2) by blast+
  with w1 f1(1) f2(1) n
  have "wire s3 = wire s @ ([status_check_frame, reset_frame] @ fs1 @ fs2) \<and>
      cancel_job_frame \<notin> set ([status_check_frame, reset_frame] @ fs1 @ fs2)"
    by simp
  then show "\<exists>fs. wire s3 = wire s @ fs \<and> cancel_job_frame \<notin> set fs" by blast
qed

lemma cancel_job_wire:
  "wire (snd (andthen printer_cancel_job (\<lambda>_. ret 0) s)) = wire s @ [cancel_job_frame]"
proof -
  have "wire (snd (send_to_printer [0x18] 1 EPSIZE_1 s)) = wire s @ [out_frame [0x18] 1 EPSIZE_1]"
    by (rule send_to_printer_wire) simp_all
  then have "wire (snd (send_to_printer [0x18] 1 EPSIZE_1 s)) = wire s @ [cancel_job_frame]"
    unfolding cancel_out_frame .
  then show ?thesis
    by (cases "send_to_printer [0x18] 1 EPSIZE_1 s"; rename_tac r1 s1; case_tac r1)
      (simp_all add: printer_cancel_job_def andthen_def ret_def)
qed

section \<open>Claims about the job sequence\<close>

text \<open>
  C2, as amended: in a print job, when one of the steps of lines 721 to 738 (prejob, tape
  check, second reset, speed, margin, density, cutter, second status check, raster) reports
  a recoverable error, the steps after it do nothing: all that \<^verbatim>\<open>main\<close> still does in the
  state \<open>s3\<close> that the failing step left is to send cancel-job and return. Cancel-job is the
  last frame and occurs once among the frames of the run. The results of the first status
  check and of the first reset are not looked at.
\<close>

theorem print_job_fail_fast:
  assumes "opt_operation s = OPERATION_PRINT"
    and "andthen printer_check_status (\<lambda>_. andthen printer_reset (\<lambda>_. load_image)) s = (Inr 0, s1)"
    and "job_steps = before @ step # after"
    and "latched False before s1 = (Inr False, s2)"
    and "step s2 = (Inr rc, s3)" and "rc \<noteq> 0"
  shows "main s = andthen printer_cancel_job (\<lambda>_. ret 0) s3 \<and>
    wire (snd (main s)) = wire s3 @ [cancel_job_frame] \<and>
    count_list (emitted s (snd (main s))) cancel_job_frame = 1"
proof -
  note m = main_after_failure [OF assms]
  from m(2) obtain fs where fs: "wire s3 = wire s @ fs" "cancel_job_frame \<notin> set fs" by blast
  have w: "wire (snd (main s)) = wire s3 @ [cancel_job_frame]"
    unfolding m(1) by (rule cancel_job_wire)
  then have "emitted s (snd (main s)) = fs @ [cancel_job_frame]"
    by (simp add: fs(1) emitted_def)
  with fs(2) have "count_list (emitted s (snd (main s))) cancel_job_frame = 1"
    by (simp add: count_list_0_iff)
  with m(1) w show ?thesis by simp
qed

text \<open>
  C3, as amended: for feed, cut and half-cut the program sends the status check and the
  reset that open every run, whose results it ignores, then the one-byte command of the
  operation, and nothing else: no step of the print job and no cancel-job.
\<close>

theorem non_print_operations:
  assumes "opt_operation s \<noteq> OPERATION_PRINT" and "main s = (Inr rc, s')"
  shows "rc = 0 \<and> cancel_job_frame \<notin> set (emitted s s') \<and>
    (opt_operation s = OPERATION_FEED \<longrightarrow>
       emitted s s' = [status_check_frame, reset_frame, [0x0A]]) \<and>
    (opt_operation s = OPERATION_CUT \<longrightarrow>
       emitted s s' = [status_check_frame, reset_frame, [0x08]]) \<and>
    (opt_operation s = OPERATION_HALFCUT \<longrightarrow>
       emitted s s' = [status_check_frame, reset_frame, [0x09]])"
proof -
  from assms(2) obtain a b s2 where
    "printer_check_status s = (Inr a, s\<lparr>wire := wire s @ [status_check_frame],
        usb_out := stl (usb_out s), usb_in := stl (usb_in s)\<rparr>)"
    and e: "s2 = s\<lparr>wire := wire s @ [status_check_frame, reset_frame],
        usb_out := stl (stl (usb_out s)), usb_in := stl (stl (usb_in s))\<rparr>"
    and "printer_reset (s\<lparr>wire := wire s @ [status_check_frame],
        usb_out := stl (usb_out s), usb_in := stl (usb_in s)\<rparr>) = (Inr b, s2)"
    and C: "(case opt_operation s of
          OPERATION_FEED \<Rightarrow> andthen printer_tape_feed (\<lambda>_. ret 0)
        | OPERATION_CUT \<Rightarrow> andthen printer_tape_cut (\<lambda>_. ret 0)
        | OPERATION_HALFCUT \<Rightarrow> andthen printer_tape_halfcut (\<lambda>_. ret 0)
        | OPERATION_PRINT \<Rightarrow>
            andthen load_image (\<lambda>rc.
              if rc \<noteq> 0 then ret 1
              else andthen (latched False job_steps) (\<lambda>_. andthen printer_cancel_job (\<lambda>_. ret 0))))
       s2 = (Inr rc, s')"
    by (rule main_preamble)
  have s2: "wire s2 = wire s @ [status_check_frame, reset_frame]" by (simp add: e)
  have n: "cancel_job_frame \<noteq> status_check_frame" "cancel_job_frame \<noteq> reset_frame"
    by (simp_all add: cancel_job_frame_def status_check_frame_def reset_frame_def)
  show ?thesis
  proof (cases "opt_operation s")
    case OPERATION_PRINT
    with assms(1) show ?thesis by simp
  next
    case OPERATION_FEED
    with C single_command_Inr [of "0x0A" s2 rc s'] s2 n show ?thesis
      by (simp add: printer_tape_feed_def emitted_def cancel_job_frame_def)
  next
    case OPERATION_CUT
    with C single_command_Inr [of "0x08" s2 rc s'] s2 n show ?thesis
      by (simp add: printer_tape_cut_def emitted_def cancel_job_frame_def)
  next
    case OPERATION_HALFCUT
    with C single_command_Inr [of "0x09" s2 rc s'] s2 n show ?thesis
      by (simp add: printer_tape_halfcut_def emitted_def cancel_job_frame_def)
  qed
qed

lemma acking_other [simp]:
  "acking (s\<lparr>fin := a\<rparr>) = acking s"
  "acking (s\<lparr>image_w := b\<rparr>) = acking s"
  "acking (s\<lparr>image_stripes := c\<rparr>) = acking s"
  "acking (s\<lparr>pattern_size := d\<rparr>) = acking s"
  "acking (s\<lparr>pattern := e\<rparr>) = acking s"
  "acking (s\<lparr>opt_operation := f\<rparr>) = acking s"
  by (simp_all add: acking_def)

lemma send_acking:
  assumes "acking s" "cnt \<le> epsize_val e" "cnt \<le> length d"
  shows "send_to_printer d cnt e s = (Inr (int (epsize_val e)), s\<lparr>wire := wire s @ [out_frame d cnt e]\<rparr>)"
proof -
  have o: "shd (usb_out s) = Some (\<lambda>n. (0, n))" and o': "stl (usb_out s) = usb_out s"
    using assms(1) by (simp_all add: acking_def)
  have "send_to_printer d cnt e s = (Inr (int (epsize_val e)),
      s\<lparr>wire := wire s @ [out_frame d cnt e], usb_out := stl (usb_out s)\<rparr>)"
    by (rule send_to_printer_healthy [OF o _ assms(2,3)]) simp
  then show ?thesis by (simp add: o')
qed

lemma recv_acking:
  assumes "acking s"
  shows "recv_from_printer s = (Inr [PRINTER_ACK], s)"
  using assms by (simp add: acking_def recv_from_printer_def KLG2_EPSIZE_def)

lemma check_status_acking:
  assumes "acking s"
  shows "printer_check_status s = (Inr 1, s\<lparr>wire := wire s @ [status_check_frame]\<rparr>)"
  unfolding printer_check_status_def
  using assms by (simp add: andthen_def send_acking recv_acking ret_def status_out_frame)

lemma reset_acking:
  assumes "acking s"
  shows "printer_reset s = (Inr 0, s\<lparr>wire := wire s @ [reset_frame]\<rparr>)"
  unfolding printer_reset_def
  using send_ack_acking [OF assms, of 2 EPSIZE_16 "[0x02, 0x01]"] by (simp add: reset_out_frame)

lemma prejob_acking:
  assumes "acking s"
  shows "printer_prejob s = (Inr 1, s\<lparr>wire := wire s @ prejob_frames\<rparr>)"
proof -
  have f1: "out_frame [PRINTER_STX, 0x02, 0x04, 0x00, 0x00, 0x09, 0x09, 0x01] 8 EPSIZE_16
      = [PRINTER_STX, 0x02, 0x04, 0x00, 0x00, 0x09, 0x09, 0x01] @ replicate 8 0"
    by (simp add: out_frame_def KLG2_EPSIZE_def)
  have f2: "out_frame [PRINTER_STX, 0x82] 2 EPSIZE_16 = [PRINTER_STX, 0x82] @ replicate 14 0"
    by (simp add: out_frame_def KLG2_EPSIZE_def)
  have a: "printer_recv_ack s0 = (Inr 0, s0)" if "acking s0" for s0
    unfolding printer_recv_ack_def using that by (simp add: andthen_def recv_acking ret_def)
  show ?thesis
    unfolding printer_prejob_def using assms
    by (simp add: andthen_def send_acking recv_acking a ret_def f1 f2 prejob_frames_def)
qed

lemma transpose_rows_empty: "transpose_rows i stripes 0 pat = Inr pat"
proof (induction i stripes "0 :: nat" pat rule: transpose_rows.induct)
  case (1 i stripes pat)
  have r: "transpose_row i (stripes ! i) 0 0 0 pat = Inr pat"
    by (simp add: transpose_row.simps)
  show ?case
  proof (cases "i < IMAGE_ROWS")
    case True
    with "1" [OF True r] r show ?thesis by (simp add: transpose_rows.simps [of i])
  next
    case False
    then show ?thesis by (simp add: transpose_rows.simps [of i])
  qed
qed

lemma load_image_empty:
  assumes "fin s = [0x50, 0x34, 0x0A, 0x30, 0x20, 0x30, 0x0A]"
  shows "load_image s = (Inr 0, s\<lparr>fin := [], image_w := 0,
     image_stripes := replicate IMAGE_ROWS [], pattern_size := 0, pattern := []\<rparr>)"
proof -
  have "read_header s = (Inr (Some (0, 0)), s\<lparr>fin := []\<rparr>)"
    by (simp add: read_header_plain [OF assms] fscanf_size_def scan_u_def is_space_def
        is_digit_def)
  then show ?thesis
    by (simp add: load_image_def read_rows.simps transpose_rows_empty)
qed

lemma all_ack_print_run:
  "andthen printer_check_status (\<lambda>_. andthen printer_reset (\<lambda>_. load_image)) all_ack_print
     = (Inr 0, all_ack_print\<lparr>wire := [status_check_frame, reset_frame], fin := [], image_w := 0,
          image_stripes := replicate IMAGE_ROWS [], pattern_size := 0, pattern := []\<rparr>)"
  "acking (all_ack_print\<lparr>wire := [status_check_frame, reset_frame], fin := [], image_w := 0,
          image_stripes := replicate IMAGE_ROWS [], pattern_size := 0, pattern := []\<rparr>)"
  "opt_operation all_ack_print = OPERATION_PRINT" "wire all_ack_print = []"
proof -
  have a: "acking all_ack_print" unfolding all_ack_print_def by (rule acking_start)
  have h: "fin all_ack_print = [0x50, 0x34, 0x0A, 0x30, 0x20, 0x30, 0x0A]"
    by (simp add: all_ack_print_def start_def)
  show "andthen printer_check_status (\<lambda>_. andthen printer_reset (\<lambda>_. load_image)) all_ack_print
     = (Inr 0, all_ack_print\<lparr>wire := [status_check_frame, reset_frame], fin := [], image_w := 0,
          image_stripes := replicate IMAGE_ROWS [], pattern_size := 0, pattern := []\<rparr>)"
    using a h by (simp add: andthen_def check_status_acking reset_acking load_image_empty)
      (simp add: all_ack_print_def start_def)
  show "acking (all_ack_print\<lparr>wire := [status_check_frame, reset_frame], fin := [], image_w := 0,
          image_stripes := replicate IMAGE_ROWS [], pattern_size := 0, pattern := []\<rparr>)"
    using a by simp
  show "opt_operation all_ack_print = OPERATION_PRINT" "wire all_ack_print = []"
    by (simp_all add: all_ack_print_def start_def)
qed

theorem print_job_fail_fast_witness:
  "wire (snd (main all_ack_print))
     = [status_check_frame, reset_frame] @ prejob_frames @ [cancel_job_frame] \<and>
   count_list (wire (snd (main all_ack_print))) cancel_job_frame = 1"
proof -
  let ?s1 = "all_ack_print\<lparr>wire := [status_check_frame, reset_frame], fin := [], image_w := 0,
          image_stripes := replicate IMAGE_ROWS [], pattern_size := 0, pattern := []\<rparr>"
  have j: "job_steps = [] @ printer_prejob # tl job_steps" by (simp add: job_steps_def)
  have l: "latched False [] ?s1 = (Inr False, ?s1)" by (simp add: ret_def)
  have p: "printer_prejob ?s1 = (Inr 1, ?s1\<lparr>wire := wire ?s1 @ prejob_frames\<rparr>)"
    by (rule prejob_acking [OF all_ack_print_run(2)])
  have nz: "(1 :: int) \<noteq> 0" by simp
  from print_job_fail_fast [OF all_ack_print_run(3) all_ack_print_run(1) j l p nz]
  have w: "wire (snd (main all_ack_print)) = wire (?s1\<lparr>wire := wire ?s1 @ prejob_frames\<rparr>) @ [cancel_job_frame]"
    and c: "count_list (emitted all_ack_print (snd (main all_ack_print))) cancel_job_frame = 1"
    by blast+
  have "emitted all_ack_print (snd (main all_ack_print)) = wire (snd (main all_ack_print))"
    by (simp add: emitted_def all_ack_print_run(4))
  with c have "count_list (wire (snd (main all_ack_print))) cancel_job_frame = 1"
    by (simp only:)
  moreover from w have "wire (snd (main all_ack_print))
     = [status_check_frame, reset_frame] @ prejob_frames @ [cancel_job_frame]"
    by simp
  ultimately show ?thesis by blast
qed

theorem first_status_check_counterexample:
  "fst (printer_check_status all_ack_print) = Inr 1 \<and>
   wire (snd (main all_ack_print))
     = [status_check_frame, reset_frame] @ prejob_frames @ [cancel_job_frame]"
proof -
  let ?s1 = "all_ack_print\<lparr>wire := [status_check_frame, reset_frame], fin := [], image_w := 0,
          image_stripes := replicate IMAGE_ROWS [], pattern_size := 0, pattern := []\<rparr>"
  have a: "acking all_ack_print" unfolding all_ack_print_def by (rule acking_start)
  have j: "job_steps = [] @ printer_prejob # tl job_steps" by (simp add: job_steps_def)
  have l: "latched False [] ?s1 = (Inr False, ?s1)" by (simp add: ret_def)
  have p: "printer_prejob ?s1 = (Inr 1, ?s1\<lparr>wire := wire ?s1 @ prejob_frames\<rparr>)"
    by (rule prejob_acking [OF all_ack_print_run(2)])
  have "main all_ack_print = andthen printer_cancel_job (\<lambda>_. ret 0) (?s1\<lparr>wire := wire ?s1 @ prejob_frames\<rparr>)"
    by (rule main_after_failure(1) [OF all_ack_print_run(3) all_ack_print_run(1) j l p]) simp
  then have "wire (snd (main all_ack_print))
     = [status_check_frame, reset_frame] @ prejob_frames @ [cancel_job_frame]"
    by (simp add: cancel_job_wire)
  then show ?thesis by (simp add: check_status_acking [OF a])
qed

lemma all_ack_feed_run:
  "main all_ack_feed = (Inr 0, all_ack_feed\<lparr>wire := [status_check_frame, reset_frame, [0x0A]]\<rparr>)"
proof -
  have a: "acking all_ack_feed" using acking_start [of "[]"] by (simp add: all_ack_feed_def)
  have o: "opt_operation all_ack_feed = OPERATION_FEED" "wire all_ack_feed = []"
    by (simp_all add: all_ack_feed_def start_def)
  have f: "printer_tape_feed s = (Inr 0, s\<lparr>wire := wire s @ [[0x0A]]\<rparr>)" if "acking s" for s
    unfolding printer_tape_feed_def
    using send_ack_acking [OF that, of 1 EPSIZE_1 "[0x0A]"]
    by (simp add: out_frame_def KLG2_EPSIZE_def)
  show ?thesis
    unfolding main_def using a o
    by (simp add: andthen_def check_status_acking reset_acking f ret_def)
qed

theorem non_print_operations_witness:
  "wire (snd (main all_ack_feed)) = [status_check_frame, reset_frame, [0x0A]] \<and>
   cancel_job_frame \<notin> set (wire (snd (main all_ack_feed))) \<and> fst (main all_ack_feed) = Inr 0"
proof -
  have o: "opt_operation all_ack_feed \<noteq> OPERATION_PRINT" "wire all_ack_feed = []"
    "opt_operation all_ack_feed = OPERATION_FEED"
    by (simp_all add: all_ack_feed_def start_def)
  from non_print_operations [OF o(1) all_ack_feed_run] o(2,3)
  show ?thesis by (simp add: all_ack_feed_run emitted_def)
qed

theorem feed_three_commands_counterexample:
  "wire (snd (main all_ack_feed)) = [status_check_frame, reset_frame, [0x0A]] \<and>
   length (wire (snd (main all_ack_feed))) = 3 \<and> wire all_ack_feed = []"
  by (simp add: all_ack_feed_run) (simp add: all_ack_feed_def start_def)

section \<open>The loader\<close>

lemma read_rows_result: "fst (read_rows i img_h pad_h img_w s) = Inr 0 \<or> fst (read_rows i img_h pad_h img_w s) = Inr 1"
proof (induction i img_h pad_h img_w s rule: read_rows.induct)
  case (1 i img_h pad_h img_w s)
  show ?case
  proof (cases "i < img_h")
    case False
    then show ?thesis by (simp add: read_rows.simps [of i])
  next
    case True
    show ?thesis
    proof (cases "img_w = 0 \<or> length (take img_w (fin s)) < img_w")
      case stop: True
      with True show ?thesis by (simp add: read_rows.simps [of i] Let_def)
    next
      case go: False
      from "1.IH" [OF True refl refl go] True go show ?thesis
        by (simp add: read_rows.simps [of i] Let_def)
    qed
  qed
qed

lemma pbm_row_shift: "pbm_row img_w (drop img_w input) k = pbm_row img_w input (Suc k)"
  by (simp add: pbm_row_def add.commute)

lemma read_rows_stripes:
  assumes "read_rows i img_h pad_h img_w s = (Inr 0, s')"
    and "length (image_stripes s) = 128" "img_h + pad_h \<le> 128" "i \<le> img_h"
    and "\<forall>row\<in>set (image_stripes s). length row = img_w"
  shows "image_stripes s' = take (i + pad_h) (image_stripes s) @
      map (pbm_row img_w (fin s)) [0..<img_h - i] @ drop (img_h + pad_h) (image_stripes s)"
  using assms
proof (induction i img_h pad_h img_w s rule: read_rows.induct)
  case (1 i img_h pad_h img_w s)
  show ?case
  proof (cases "i < img_h")
    case False
    with "1.prems" have "s' = s" "i = img_h" by (simp_all add: read_rows.simps [of i])
    then show ?thesis by simp
  next
    case True
    define got where "got = take img_w (fin s)"
    define s1 where "s1 = s\<lparr>image_stripes := (image_stripes s)
                     [i + pad_h := got @ drop (length got) (image_stripes s ! (i + pad_h))],
                   fin := drop img_w (fin s)\<rparr>"
    have go: "\<not> (img_w = 0 \<or> length (take img_w (fin s)) < img_w)"
    proof
      assume "img_w = 0 \<or> length (take img_w (fin s)) < img_w"
      with True have "fst (read_rows i img_h pad_h img_w s) = Inr 1"
        by (simp add: read_rows.simps [of i] Let_def)
      with "1.prems"(1) show False by simp
    qed
    with True "1.prems"(1) have r: "read_rows (i + 1) img_h pad_h img_w s1 = (Inr 0, s')"
      by (simp add: read_rows.simps [of i] Let_def s1_def got_def)
    have lg: "length got = img_w" using go by (auto simp: got_def)
    have l1: "length (image_stripes s1) = 128" using "1.prems"(2) by (simp add: s1_def)
    have inb: "i + pad_h < length (image_stripes s)" using True "1.prems"(2,3) by simp
    then have "length (image_stripes s ! (i + pad_h)) = img_w" using "1.prems"(5) by simp
    then have row: "got @ drop (length got) (image_stripes s ! (i + pad_h)) = got"
      by (simp add: lg)
    have s1: "image_stripes s1 = (image_stripes s)[i + pad_h := got]" "fin s1 = drop img_w (fin s)"
      by (simp_all add: s1_def row)
    have a1: "\<forall>row\<in>set (image_stripes s1). length row = img_w"
      using "1.prems"(5) lg set_update_subset_insert [of "image_stripes s" "i + pad_h" got]
      by (auto simp: s1(1))
    from True have "i + 1 \<le> img_h" by simp
    from "1.IH" [OF True refl refl go r [unfolded s1_def got_def] l1 [unfolded s1_def got_def]
        "1.prems"(3) this a1 [unfolded s1_def got_def]]
    have ih: "image_stripes s' = take (i + 1 + pad_h) (image_stripes s1) @
      map (pbm_row img_w (fin s1)) [0..<img_h - (i + 1)] @ drop (img_h + pad_h) (image_stripes s1)"
      by (simp add: s1_def got_def)
    have t: "take (i + 1 + pad_h) (image_stripes s1) = take (i + pad_h) (image_stripes s) @ [got]"
      using inb by (simp add: s1 take_Suc_conv_app_nth)
    have d: "drop (img_h + pad_h) (image_stripes s1) = drop (img_h + pad_h) (image_stripes s)"
      using True by (simp add: s1)
    have m: "map (pbm_row img_w (fin s1)) [0..<img_h - (i + 1)]
        = map (pbm_row img_w (fin s)) (map Suc [0..<img_h - (i + 1)])"
      by (simp add: s1 pbm_row_shift)
    have u: "[0..<img_h - i] = 0 # map Suc [0..<img_h - (i + 1)]"
      using True by (simp add: upt_conv_Cons map_Suc_upt Suc_diff_Suc del: upt_Suc)
    have g: "pbm_row img_w (fin s) 0 = got" by (simp add: pbm_row_def got_def)
    show ?thesis
      unfolding ih t d m u by (simp add: g)
  qed
qed


lemma load_image_unfold:
  assumes "read_header s0 = (Inr (Some (w0, h0)), s)"
  shows "load_image s0 =
    (case read_rows 0 (min h0 128) ((128 - min h0 128) div 2) (((w0 + 7) mod 2 ^ 32) div 8)
            (s\<lparr>image_w := w0,
               image_stripes := replicate 128 (replicate (((w0 + 7) mod 2 ^ 32) div 8) 0)\<rparr>) of
       (Inl h, s1) \<Rightarrow> (Inl h, s1)
     | (Inr rc, s1) \<Rightarrow>
         if rc \<noteq> 0 then (Inr 1, s1)
         else (case transpose_rows 0 (image_stripes s1) (((w0 + 7) mod 2 ^ 32) div 8)
                     (replicate ((16 * image_w s1) mod 2 ^ 32) 0) of
                 Inl h \<Rightarrow> (Inl h, s1\<lparr>pattern_size := (16 * image_w s1) mod 2 ^ 32,
                                    pattern := replicate ((16 * image_w s1) mod 2 ^ 32) 0\<rparr>)
               | Inr pat \<Rightarrow> (Inr 0, s1\<lparr>pattern_size := (16 * image_w s1) mod 2 ^ 32,
                                     pattern := pat\<rparr>)))"
proof (cases "h0 \<le> 128")
  case True
  then have "(if 128 < h0 then 128 else h0) = min h0 128" by simp
  with assms show ?thesis
    by (simp add: load_image_def Let_def IMAGE_ROWS_def split: prod.splits sum.splits)
next
  case False
  then have "(if 128 < h0 then 128 else h0) = min h0 128" by simp
  with assms show ?thesis
    by (simp add: load_image_def Let_def IMAGE_ROWS_def split: prod.splits sum.splits)
qed

lemma load_image_stripes:
  assumes "read_header s0 = (Inr (Some (w0, h0)), s)" "load_image s0 = (r, s')" "r \<noteq> Inr 1"
  shows "image_stripes s' =
      replicate ((128 - min h0 128) div 2) (replicate (((w0 + 7) mod 2 ^ 32) div 8) 0) @
      map (pbm_row (((w0 + 7) mod 2 ^ 32) div 8) (fin s)) [0..<min h0 128] @
      replicate (128 - min h0 128 - (128 - min h0 128) div 2) (replicate (((w0 + 7) mod 2 ^ 32) div 8) 0)"
proof -
  let ?img_h = "min h0 128"
  let ?pad_h = "(128 - min h0 128) div 2"
  let ?img_w = "((w0 + 7) mod 2 ^ 32) div 8"
  let ?s0 = "s\<lparr>image_w := w0, image_stripes := replicate 128 (replicate ?img_w 0)\<rparr>"
  obtain r1 s1 where rr: "read_rows 0 ?img_h ?pad_h ?img_w ?s0 = (r1, s1)"
    by (cases "read_rows 0 ?img_h ?pad_h ?img_w ?s0")
  note u = assms(2) [unfolded load_image_unfold [OF assms(1)] rr]
  from read_rows_result [of 0 ?img_h ?pad_h ?img_w ?s0] rr have "r1 = Inr 0 \<or> r1 = Inr 1" by simp
  moreover have "r = Inr 1" if "r1 = Inr 1"
    using u that by simp
  ultimately have r1: "r1 = Inr 0" using assms(3) by blast
  have "image_stripes s' = image_stripes s1"
    using u r1 by (auto split: sum.splits)
  moreover have "image_stripes s1 = take (0 + ?pad_h) (image_stripes ?s0) @
      map (pbm_row ?img_w (fin ?s0)) [0..<?img_h - 0] @ drop (?img_h + ?pad_h) (image_stripes ?s0)"
    by (rule read_rows_stripes [OF rr [unfolded r1]]) auto
  ultimately show ?thesis
    by (simp add: min_def)
qed

lemma load_image_not_1:
  assumes "read_header s0 = (Inr (Some (w0, h0)), s)"
    and "fst (read_rows 0 (min h0 128) ((128 - min h0 128) div 2) (((w0 + 7) mod 2 ^ 32) div 8)
            (s\<lparr>image_w := w0,
               image_stripes := replicate 128 (replicate (((w0 + 7) mod 2 ^ 32) div 8) 0)\<rparr>)) = Inr 0"
  shows "fst (load_image s0) \<noteq> Inr 1"
  using assms(2) unfolding load_image_unfold [OF assms(1)]
  by (auto split: prod.splits sum.splits)

lemma transpose_bits_zero:
  "byte = 0 \<Longrightarrow> \<exists>x'. transpose_bits i byte b x pat = Inr (pat, x')"
proof (induction i byte b x pat rule: transpose_bits.induct)
  case (1 i byte b x pat)
  have z: "push_bit b (uint byte) AND 0x80 = 0" using "1.prems" by simp
  show ?case
  proof (cases "b < 8")
    case True
    with "1.IH"(2) [OF True _ "1.prems"] z show ?thesis
      by (simp add: transpose_bits.simps [of i byte b])
  next
    case False
    then show ?thesis by (simp add: transpose_bits.simps [of i byte b])
  qed
qed

lemma transpose_row_zero:
  assumes "\<forall>k<img_w. stripe ! k = 0"
  shows "transpose_row i stripe w img_w x pat = Inr pat"
  using assms
proof (induction i stripe w img_w x pat rule: transpose_row.induct)
  case (1 i stripe w img_w x pat)
  show ?case
  proof (cases "w < img_w")
    case True
    with "1.prems" have z: "stripe ! w = 0" by simp
    from transpose_bits_zero [OF z, of i 0 x pat] obtain x' where
      b: "transpose_bits i (stripe ! w) 0 x pat = Inr (pat, x')" by blast
    from "1.IH" [OF True b refl "1.prems"] True b show ?thesis
      by (simp add: transpose_row.simps [of i stripe w])
  next
    case False
    then show ?thesis by (simp add: transpose_row.simps [of i stripe w])
  qed
qed

lemma transpose_rows_skip:
  assumes "i \<le> k" "k \<le> IMAGE_ROWS" "\<forall>j. i \<le> j \<and> j < k \<longrightarrow> (\<forall>m<img_w. stripes ! j ! m = 0)"
  shows "transpose_rows i stripes img_w pat = transpose_rows k stripes img_w pat"
  using assms
proof (induction "k - i" arbitrary: i)
  case 0
  then show ?case by simp
next
  case (Suc n)
  then have lt: "i < k" "i < IMAGE_ROWS" by simp_all
  from Suc.prems(3) lt have "\<forall>m<img_w. stripes ! i ! m = 0" by simp
  then have r: "transpose_row i (stripes ! i) 0 img_w 0 pat = Inr pat" by (rule transpose_row_zero)
  have "transpose_rows (i + 1) stripes img_w pat = transpose_rows k stripes img_w pat"
    using Suc.hyps(2) Suc.prems lt by (intro Suc.hyps(1)) auto
  with r lt show ?case by (simp add: transpose_rows.simps [of i])
qed


subsection \<open>The transposition\<close>

lemma bit_test:
  assumes "b < 8"
  shows "(push_bit b (uint (byte :: u8)) AND 0x80 \<noteq> 0) = bit byte (7 - b)"
proof -
  have "(0x80 :: int) = 2 ^ 7" by simp
  then have "(push_bit b (uint byte) AND 0x80 = 0) = (\<not> bit (push_bit b (uint byte)) 7)"
    by (simp only: and_exp_eq_0_iff_not_bit)
  also have "bit (push_bit b (uint byte)) 7 = bit byte (7 - b)"
    using assms by (auto simp: bit_push_bit_iff bit_uint_iff)
  finally show ?thesis by simp
qed

lemma bit_store:
  assumes "idx < length pat" "k < 8" "j < length pat"
  shows "bit (pat[idx := pat ! idx OR push_bit k (1 :: u8)] ! j) m
       = (bit (pat ! j) m \<or> (j = idx \<and> m = k))"
  using assms by (auto simp: nth_list_update bit_or_iff bit_push_bit_iff bit_1_iff bit_exp_iff)

lemma index_inj:
  fixes i i' x x' :: nat
  assumes "i < 128" "i' < 128"
  shows "(x' * 16 + i' div 8 = x * 16 + i div 8 \<and> i' mod 8 = i mod 8) = (x' = x \<and> i' = i)"
proof -
  have a: "i div 8 < 16" "i' div 8 < 16" using assms by simp_all
  have "x' = x \<and> i' div 8 = i div 8" if e: "x' * 16 + i' div 8 = x * 16 + i div 8"
  proof -
    have "(x' * 16 + i' div 8) div 16 = x'" "(x * 16 + i div 8) div 16 = x"
      "(x' * 16 + i' div 8) mod 16 = i' div 8" "(x * 16 + i div 8) mod 16 = i div 8"
      using a by simp_all
    with e show ?thesis by simp
  qed
  moreover have "i' = i" if "i' div 8 = i div 8" "i' mod 8 = i mod 8"
    using that by (metis div_mult_mod_eq)
  ultimately show ?thesis by auto
qed

lemma pattern_bit_store:
  assumes "x * 16 + i div 8 < length pat" "i < 128" "i' < 128" "x' * 16 + i' div 8 < length pat"
  shows "pattern_bit (pat[x * 16 + i div 8 := pat ! (x * 16 + i div 8) OR push_bit (i mod 8) 1]) i' x'
       = (pattern_bit pat i' x' \<or> (i' = i \<and> x' = x))"
  unfolding pattern_bit_def
  using bit_store [OF assms(1) _ assms(4), of "i mod 8" "i' mod 8"] index_inj [OF assms(2,3), of x' x]
  by auto

lemma transpose_bits_effect:
  assumes "transpose_bits i byte b x pat = Inr (pat', x')"
    and "x = x0 + b" "b \<le> 8" "i < 128" "x0 + 8 \<le> 2 ^ 28"
  shows "x' = x0 + 8 \<and> length pat' = length pat \<and>
    (\<forall>c. b \<le> c \<and> c < 8 \<and> bit byte (7 - c) \<longrightarrow> (x0 + c) * 16 + i div 8 < length pat) \<and>
    (\<forall>i' x''. i' < 128 \<and> x'' * 16 + i' div 8 < length pat \<longrightarrow>
       pattern_bit pat' i' x'' =
         (pattern_bit pat i' x'' \<or> (i' = i \<and> (\<exists>c. b \<le> c \<and> c < 8 \<and> x'' = x0 + c \<and> bit byte (7 - c)))))"
  using assms
proof (induction i byte b x pat arbitrary: pat' rule: transpose_bits.induct)
  case (1 i byte b x pat)
  show ?case
  proof (cases "b < 8")
    case False
    with "1.prems" have "b = 8" "pat' = pat" "x' = x"
      by (simp_all add: transpose_bits.simps [of i byte b])
    with "1.prems"(2) show ?thesis by auto
  next
    case True
    have xs: "(x + 1) mod 2 ^ 32 = x0 + (b + 1)"
      using "1.prems"(2,5) True by simp
    have idx: "(x * (IMAGE_ROWS div 8) + i div 8) mod 2 ^ 32 = (x0 + b) * 16 + i div 8"
    proof -
      have "x < 2 ^ 28" using "1.prems"(2,5) True by simp
      then have "x * 16 + i div 8 < 2 ^ 32" using "1.prems"(4) by simp
      then show ?thesis by (simp add: IMAGE_ROWS_def "1.prems"(2))
    qed
    have split: "(\<exists>c. b \<le> c \<and> c < 8 \<and> P c) = (P b \<or> (\<exists>c. b + 1 \<le> c \<and> c < 8 \<and> P c))" for P
      using True by (metis Suc_eq_plus1 Suc_leD Suc_le_eq le_neq_implies_less order_refl)
    have splitA: "(\<forall>c. b \<le> c \<and> c < 8 \<and> P c \<longrightarrow> Q c)
        = ((P b \<longrightarrow> Q b) \<and> (\<forall>c. b + 1 \<le> c \<and> c < 8 \<and> P c \<longrightarrow> Q c))" for P Q
      using True by (metis Suc_eq_plus1 Suc_leD Suc_le_eq le_neq_implies_less order_refl)
    show ?thesis
    proof (cases "bit byte (7 - b)")
      case nobit: False
      then have t: "\<not> (push_bit b (uint byte) AND 0x80 \<noteq> 0)" using bit_test [OF True] by simp
      with True "1.prems"(1) have r: "transpose_bits i byte (b + 1) ((x + 1) mod 2 ^ 32) pat = Inr (pat', x')"
        by (simp add: transpose_bits.simps [of i byte b])
      from True have "b + 1 \<le> 8" by simp
      from "1.IH"(2) [OF True _ r xs this "1.prems"(4,5)] t
      have ih: "x' = x0 + 8 \<and> length pat' = length pat \<and>
        (\<forall>c. b + 1 \<le> c \<and> c < 8 \<and> bit byte (7 - c) \<longrightarrow> (x0 + c) * 16 + i div 8 < length pat) \<and>
        (\<forall>i' x''. i' < 128 \<and> x'' * 16 + i' div 8 < length pat \<longrightarrow>
           pattern_bit pat' i' x'' =
             (pattern_bit pat i' x'' \<or> (i' = i \<and> (\<exists>c. b + 1 \<le> c \<and> c < 8 \<and> x'' = x0 + c \<and> bit byte (7 - c)))))"
        by simp
      show ?thesis
        unfolding split [of "\<lambda>c. _ = x0 + c \<and> bit byte (7 - c)"]
          splitA [of "\<lambda>c. bit byte (7 - c)"]
        using ih nobit by simp
    next
      case isbit: True
      then have t: "push_bit b (uint byte) AND 0x80 \<noteq> 0" using bit_test [OF True] by simp
      define j where "j = (x0 + b) * 16 + i div 8"
      have inb: "j < length pat"
      proof (rule ccontr)
        assume "\<not> j < length pat"
        with True t idx "1.prems"(1) show False
          by (simp add: transpose_bits.simps [of i byte b] Let_def j_def)
      qed
      define pat1 where "pat1 = pat[j := pat ! j OR push_bit (i mod 8) 1]"
      from True t idx inb "1.prems"(1)
      have r: "transpose_bits i byte (b + 1) ((x + 1) mod 2 ^ 32) pat1 = Inr (pat', x')"
        by (simp add: transpose_bits.simps [of i byte b] Let_def j_def pat1_def)
      from True have "b + 1 \<le> 8" by simp
      from "1.IH"(1) [OF True t refl _ r [unfolded pat1_def j_def idx [symmetric]] xs this "1.prems"(4,5)] idx inb
      have ih: "x' = x0 + 8 \<and> length pat' = length pat1 \<and>
        (\<forall>c. b + 1 \<le> c \<and> c < 8 \<and> bit byte (7 - c) \<longrightarrow> (x0 + c) * 16 + i div 8 < length pat1) \<and>
        (\<forall>i' x''. i' < 128 \<and> x'' * 16 + i' div 8 < length pat1 \<longrightarrow>
           pattern_bit pat' i' x'' =
             (pattern_bit pat1 i' x'' \<or> (i' = i \<and> (\<exists>c. b + 1 \<le> c \<and> c < 8 \<and> x'' = x0 + c \<and> bit byte (7 - c)))))"
        by (simp add: pat1_def j_def)
      have l1: "length pat1 = length pat" by (simp add: pat1_def)
      have st: "pattern_bit pat1 i' x'' = (pattern_bit pat i' x'' \<or> (i' = i \<and> x'' = x0 + b))"
        if "i' < 128" "x'' * 16 + i' div 8 < length pat" for i' x''
        unfolding pat1_def j_def
        by (rule pattern_bit_store [OF inb [unfolded j_def] "1.prems"(4) that])
      show ?thesis
        unfolding split [of "\<lambda>c. _ = x0 + c \<and> bit byte (7 - c)"]
          splitA [of "\<lambda>c. bit byte (7 - c)"]
        using ih isbit inb st by (auto simp: l1 j_def)
    qed
  qed
qed

lemma div8_of_range:
  fixes x w :: nat
  assumes "8 * w \<le> x" "x < 8 * w + 8"
  shows "x div 8 = w"
proof -
  define r where "r = x - 8 * w"
  have "x = 8 * w + r" "r < 8" using assms by (simp_all add: r_def)
  then show ?thesis by simp
qed

lemma column_of_byte:
  fixes x w :: nat
  shows "(\<exists>c. 0 \<le> c \<and> c < 8 \<and> x = 8 * w + c \<and> P c) = (8 * w \<le> x \<and> x < 8 * w + 8 \<and> P (x mod 8))"
proof
  assume "\<exists>c. 0 \<le> c \<and> c < 8 \<and> x = 8 * w + c \<and> P c"
  then obtain c where c: "c < 8" "x = 8 * w + c" "P c" by blast
  then have "x mod 8 = c" by simp
  with c show "8 * w \<le> x \<and> x < 8 * w + 8 \<and> P (x mod 8)" by simp
next
  assume a: "8 * w \<le> x \<and> x < 8 * w + 8 \<and> P (x mod 8)"
  then have "x div 8 = w" by (simp add: div8_of_range)
  then have "x = 8 * w + x mod 8" by (metis mult_div_mod_eq)
  with a show "\<exists>c. 0 \<le> c \<and> c < 8 \<and> x = 8 * w + c \<and> P c" by (intro exI [of _ "x mod 8"]) simp
qed

lemma transpose_row_effect:
  assumes "transpose_row i stripe w img_w x pat = Inr pat'"
    and "x = 8 * w" "i < 128" "8 * img_w \<le> 2 ^ 28"
  shows "length pat' = length pat \<and>
    (\<forall>x''. 8 * w \<le> x'' \<and> x'' < 8 * img_w \<and> bit (stripe ! (x'' div 8)) (7 - x'' mod 8) \<longrightarrow>
        x'' * 16 + i div 8 < length pat) \<and>
    (\<forall>i' x''. i' < 128 \<and> x'' * 16 + i' div 8 < length pat \<longrightarrow>
       pattern_bit pat' i' x'' =
         (pattern_bit pat i' x'' \<or>
          (i' = i \<and> 8 * w \<le> x'' \<and> x'' < 8 * img_w \<and> bit (stripe ! (x'' div 8)) (7 - x'' mod 8))))"
  using assms
proof (induction i stripe w img_w x pat arbitrary: pat' rule: transpose_row.induct)
  case (1 i stripe w img_w x pat)
  show ?case
  proof (cases "w < img_w")
    case False
    with "1.prems"(1) have "pat' = pat" by (simp add: transpose_row.simps [of i stripe w])
    with False show ?thesis by auto
  next
    case True
    obtain res where b: "transpose_bits i (stripe ! w) 0 x pat = res" by blast
    with True "1.prems"(1) obtain pat1 x1 where
      b1: "transpose_bits i (stripe ! w) 0 x pat = Inr (pat1, x1)"
      and r: "transpose_row i stripe (w + 1) img_w x1 pat1 = Inr pat'"
      by (cases res) (auto simp: transpose_row.simps [of i stripe w])
    have x0: "x = 8 * w + 0" "8 * w + 8 \<le> (2 :: nat) ^ 28"
      using "1.prems"(2,4) True by simp_all
    from transpose_bits_effect [OF b1 x0(1) _ "1.prems"(3) x0(2)]
    have e: "x1 = 8 * w + 8" "length pat1 = length pat"
      "\<forall>c. 0 \<le> c \<and> c < 8 \<and> bit (stripe ! w) (7 - c) \<longrightarrow> (8 * w + c) * 16 + i div 8 < length pat"
      "\<forall>i' x''. i' < 128 \<and> x'' * 16 + i' div 8 < length pat \<longrightarrow>
         pattern_bit pat1 i' x'' =
           (pattern_bit pat i' x'' \<or>
            (i' = i \<and> (\<exists>c. 0 \<le> c \<and> c < 8 \<and> x'' = 8 * w + c \<and> bit (stripe ! w) (7 - c))))"
      by simp_all
    have x1: "x1 = 8 * (w + 1)" using e(1) by simp
    from "1.IH" [OF True b1 refl r x1 "1.prems"(3,4)] e(2)
    have ih: "length pat' = length pat"
      "\<forall>x''. 8 * (w + 1) \<le> x'' \<and> x'' < 8 * img_w \<and> bit (stripe ! (x'' div 8)) (7 - x'' mod 8) \<longrightarrow>
          x'' * 16 + i div 8 < length pat"
      "\<forall>i' x''. i' < 128 \<and> x'' * 16 + i' div 8 < length pat \<longrightarrow>
         pattern_bit pat' i' x'' =
           (pattern_bit pat1 i' x'' \<or>
            (i' = i \<and> 8 * (w + 1) \<le> x'' \<and> x'' < 8 * img_w \<and> bit (stripe ! (x'' div 8)) (7 - x'' mod 8)))"
      by simp_all
    have here: "(\<exists>c. 0 \<le> c \<and> c < 8 \<and> x'' = 8 * w + c \<and> bit (stripe ! w) (7 - c))
        = (8 * w \<le> x'' \<and> x'' < 8 * w + 8 \<and> bit (stripe ! (x'' div 8)) (7 - x'' mod 8))" for x''
    proof -
      have "x'' div 8 = w" if "8 * w \<le> x''" "x'' < 8 * w + 8" using that by (rule div8_of_range)
      then show ?thesis
        unfolding column_of_byte [of x'' w "\<lambda>c. bit (stripe ! w) (7 - c)"] by auto
    qed
    have range: "(8 * w \<le> x'' \<and> x'' < 8 * img_w \<and> Q)
        = ((8 * w \<le> x'' \<and> x'' < 8 * w + 8 \<and> Q) \<or> (8 * (w + 1) \<le> x'' \<and> x'' < 8 * img_w \<and> Q))"
      for x'' Q
      using True by auto
    have inr: "x'' * 16 + i div 8 < length pat"
      if "8 * w \<le> x''" "x'' < 8 * w + 8" "bit (stripe ! (x'' div 8)) (7 - x'' mod 8)" for x''
    proof -
      from that here [of x''] obtain c where "c < 8" "x'' = 8 * w + c" "bit (stripe ! w) (7 - c)"
        by blast
      with e(3) show ?thesis by simp
    qed
    show ?thesis
      unfolding range
      using ih e(4) here inr by auto
  qed
qed

lemma transpose_rows_effect:
  assumes "transpose_rows i0 stripes img_w pat = Inr pat'" "8 * img_w \<le> 2 ^ 28"
  shows "length pat' = length pat \<and>
    (\<forall>i x. i0 \<le> i \<and> i < 128 \<and> x < 8 * img_w \<and> canvas_bit stripes i x \<longrightarrow>
        x * 16 + i div 8 < length pat) \<and>
    (\<forall>i x. i < 128 \<and> x * 16 + i div 8 < length pat \<longrightarrow>
       pattern_bit pat' i x =
         (pattern_bit pat i x \<or> (i0 \<le> i \<and> x < 8 * img_w \<and> canvas_bit stripes i x)))"
  using assms
proof (induction i0 stripes img_w pat arbitrary: pat' rule: transpose_rows.induct)
  case (1 i0 stripes img_w pat)
  show ?case
  proof (cases "i0 < IMAGE_ROWS")
    case False
    with "1.prems"(1) have "pat' = pat" by (simp add: transpose_rows.simps [of i0])
    with False show ?thesis by (auto simp: IMAGE_ROWS_def)
  next
    case True
    then have lt: "i0 < 128" by (simp add: IMAGE_ROWS_def)
    obtain res where "transpose_row i0 (stripes ! i0) 0 img_w 0 pat = res" by blast
    with True "1.prems"(1) obtain pat1 where
      r1: "transpose_row i0 (stripes ! i0) 0 img_w 0 pat = Inr pat1"
      and r: "transpose_rows (i0 + 1) stripes img_w pat1 = Inr pat'"
      by (cases res) (auto simp: transpose_rows.simps [of i0])
    from transpose_row_effect [OF r1 _ lt "1.prems"(2)]
    have e: "length pat1 = length pat"
      "\<forall>x. x < 8 * img_w \<and> canvas_bit stripes i0 x \<longrightarrow> x * 16 + i0 div 8 < length pat"
      "\<forall>i x. i < 128 \<and> x * 16 + i div 8 < length pat \<longrightarrow>
         pattern_bit pat1 i x = (pattern_bit pat i x \<or> (i = i0 \<and> x < 8 * img_w \<and> canvas_bit stripes i0 x))"
      by (simp_all add: canvas_bit_def)
    from "1.IH" [OF True r1 r "1.prems"(2)] e(1)
    have ih: "length pat' = length pat"
      "\<forall>i x. i0 + 1 \<le> i \<and> i < 128 \<and> x < 8 * img_w \<and> canvas_bit stripes i x \<longrightarrow>
          x * 16 + i div 8 < length pat"
      "\<forall>i x. i < 128 \<and> x * 16 + i div 8 < length pat \<longrightarrow>
         pattern_bit pat' i x =
           (pattern_bit pat1 i x \<or> (i0 + 1 \<le> i \<and> x < 8 * img_w \<and> canvas_bit stripes i x))"
      by simp_all
    have range: "(i0 \<le> i) = (i = i0 \<or> i0 + 1 \<le> i)" for i by auto
    show ?thesis
      unfolding range using ih e by auto
  qed
qed

lemma read_rows_shape:
  assumes "read_rows i img_h pad_h img_w s = (Inr 0, s')"
    and "length (image_stripes s) = n" "\<forall>row\<in>set (image_stripes s). length row = img_w"
  shows "length (image_stripes s') = n \<and> (\<forall>row\<in>set (image_stripes s'). length row = img_w) \<and>
    image_w s' = image_w s"
  using assms
proof (induction i img_h pad_h img_w s rule: read_rows.induct)
  case (1 i img_h pad_h img_w s)
  show ?case
  proof (cases "i < img_h")
    case False
    with "1.prems" show ?thesis by (simp add: read_rows.simps [of i])
  next
    case True
    define got where "got = take img_w (fin s)"
    define new where "new = got @ drop (length got) (image_stripes s ! (i + pad_h))"
    define s1 where "s1 = s\<lparr>image_stripes := (image_stripes s)[i + pad_h := new],
                   fin := drop img_w (fin s)\<rparr>"
    have go: "\<not> (img_w = 0 \<or> length (take img_w (fin s)) < img_w)"
    proof
      assume "img_w = 0 \<or> length (take img_w (fin s)) < img_w"
      with True have "fst (read_rows i img_h pad_h img_w s) = Inr 1"
        by (simp add: read_rows.simps [of i] Let_def)
      with "1.prems"(1) show False by simp
    qed
    with True "1.prems"(1) have r: "read_rows (i + 1) img_h pad_h img_w s1 = (Inr 0, s')"
      by (simp add: read_rows.simps [of i] Let_def s1_def got_def new_def)
    have lg: "length got = img_w" using go by (auto simp: got_def)
    have l1: "length (image_stripes s1) = n" using "1.prems"(2) by (simp add: s1_def)
    have a1: "\<forall>row\<in>set (image_stripes s1). length row = img_w"
    proof (cases "i + pad_h < length (image_stripes s)")
      case True
      then have "length (image_stripes s ! (i + pad_h)) = img_w" using "1.prems"(3) by simp
      then have "length new = img_w" by (simp add: new_def lg)
      then show ?thesis
        using "1.prems"(3) set_update_subset_insert [of "image_stripes s" "i + pad_h" new]
        by (auto simp: s1_def)
    next
      case False
      then have "(image_stripes s)[i + pad_h := new] = image_stripes s"
        by (intro list_update_beyond) simp
      then show ?thesis using "1.prems"(3) by (simp add: s1_def)
    qed
    from "1.IH" [OF True refl refl go r [unfolded s1_def new_def got_def]
        l1 [unfolded s1_def new_def got_def] a1 [unfolded s1_def new_def got_def]]
    show ?thesis by (simp add: s1_def)
  qed
qed

lemma byte_of_bits: "horner_sum of_bool 2 (map (bit (B :: u8)) [0..<8]) = B"
proof -
  have "take_bit 8 B = B" by (rule take_bit_word_eq_self) simp
  then show ?thesis using horner_sum_bit_eq_take_bit [of B 8] by simp
qed

lemma load_image_pattern:
  assumes "read_header s0 = (Inr (Some (w0, h0)), s)" "load_image s0 = (Inr 0, s')" "w0 + 7 < 2 ^ 28"
  shows "image_w s' = w0" "pattern_size s' = 16 * w0" "length (pattern s') = 16 * w0"
    "length (image_stripes s') = 128" "\<forall>row\<in>set (image_stripes s'). length row = (w0 + 7) div 8"
    "\<forall>i x. i < 128 \<and> x < 8 * ((w0 + 7) div 8) \<longrightarrow>
       canvas_bit (image_stripes s') i x = (x < w0 \<and> pattern_bit (pattern s') i x)"
proof -
  let ?img_h = "min h0 128"
  let ?pad_h = "(128 - min h0 128) div 2"
  let ?img_w = "((w0 + 7) mod 2 ^ 32) div 8"
  let ?s0 = "s\<lparr>image_w := w0, image_stripes := replicate 128 (replicate ?img_w 0)\<rparr>"
  have iw: "?img_w = (w0 + 7) div 8" using assms(3) by simp
  obtain r1 s1 where rr: "read_rows 0 ?img_h ?pad_h ?img_w ?s0 = (r1, s1)"
    by (cases "read_rows 0 ?img_h ?pad_h ?img_w ?s0")
  note u = assms(2) [unfolded load_image_unfold [OF assms(1)] rr]
  from read_rows_result [of 0 ?img_h ?pad_h ?img_w ?s0] rr have "r1 = Inr 0 \<or> r1 = Inr 1" by simp
  moreover have "r1 \<noteq> Inr 1" using u by auto
  ultimately have r1: "r1 = Inr 0" by blast
  from read_rows_shape [OF rr [unfolded r1], of 128]
  have sh: "length (image_stripes s1) = 128" "\<forall>row\<in>set (image_stripes s1). length row = ?img_w"
    "image_w s1 = w0" by simp_all
  have n: "(16 * image_w s1) mod 2 ^ 32 = 16 * w0" using sh(3) assms(3) by simp
  from u r1 n obtain pat where
    t: "transpose_rows 0 (image_stripes s1) ?img_w (replicate (16 * w0) 0) = Inr pat"
    and s': "s' = s1\<lparr>pattern_size := 16 * w0, pattern := pat\<rparr>"
    by (auto split: sum.splits)
  have le: "8 * ?img_w \<le> 2 ^ 28" using assms(3) unfolding iw by simp
  from transpose_rows_effect [OF t le]
  have e: "length pat = 16 * w0"
    "\<forall>i x. i < 128 \<and> x < 8 * ?img_w \<and> canvas_bit (image_stripes s1) i x \<longrightarrow>
        x * 16 + i div 8 < 16 * w0"
    "\<forall>i x. i < 128 \<and> x * 16 + i div 8 < 16 * w0 \<longrightarrow>
       pattern_bit pat i x =
         (pattern_bit (replicate (16 * w0) 0) i x \<or> (x < 8 * ?img_w \<and> canvas_bit (image_stripes s1) i x))"
    by simp_all
  show "image_w s' = w0" "pattern_size s' = 16 * w0" "length (pattern s') = 16 * w0"
    "length (image_stripes s') = 128" "\<forall>row\<in>set (image_stripes s'). length row = (w0 + 7) div 8"
    using sh e(1) iw by (simp_all add: s')
  show "\<forall>i x. i < 128 \<and> x < 8 * ((w0 + 7) div 8) \<longrightarrow>
       canvas_bit (image_stripes s') i x = (x < w0 \<and> pattern_bit (pattern s') i x)"
  proof (intro allI impI)
    fix i x :: nat
    assume a: "i < 128 \<and> x < 8 * ((w0 + 7) div 8)"
    then have "i < 16 * 8" by simp
    then have i8: "i div 8 < 16" by (simp only: less_mult_imp_div_less)
    show "canvas_bit (image_stripes s') i x = (x < w0 \<and> pattern_bit (pattern s') i x)"
    proof (cases "x < w0")
      case True
      then have "x * 16 + i div 8 < 16 * w0" using i8 by simp
      with e(3) a have "pattern_bit pat i x =
         (pattern_bit (replicate (16 * w0) 0) i x \<or> (x < 8 * ?img_w \<and> canvas_bit (image_stripes s1) i x))"
        by simp
      moreover have "\<not> pattern_bit (replicate (16 * w0) 0) i x"
        using \<open>x * 16 + i div 8 < 16 * w0\<close> by (simp add: pattern_bit_def)
      ultimately show ?thesis using True a iw by (simp add: s')
    next
      case False
      have "\<not> canvas_bit (image_stripes s1) i x"
      proof
        assume "canvas_bit (image_stripes s1) i x"
        with e(2) a iw have "x * 16 + i div 8 < 16 * w0" by simp
        with False show False by simp
      qed
      with False show ?thesis by (simp add: s')
    qed
  qed
qed

text \<open>
  Where the loader returns 0 on a bitmap of width below \<open>2 ^ 28 - 7\<close>, the pattern mapped
  back is the canvas.
\<close>

lemma transpose_round_trip:
  assumes "read_header s0 = (Inr (Some (w0, h0)), s)" "load_image s0 = (Inr 0, s')" "w0 + 7 < 2 ^ 28"
  shows "untranspose (image_w s') (pattern s') = image_stripes s'"
proof -
  note p = load_image_pattern [OF assms]
  let ?st = "image_stripes s'"
  let ?w = "(w0 + 7) div 8"
  let ?byte = "\<lambda>i k. horner_sum of_bool 2
      (map (\<lambda>c. 8 * k + (7 - c) < w0 \<and> pattern_bit (pattern s') i (8 * k + (7 - c))) [0..<8]) :: u8"
  have byte: "?byte i k = ?st ! i ! k" if "i < 128" "k < ?w" for i k
  proof -
    have "(8 * k + (7 - c) < w0 \<and> pattern_bit (pattern s') i (8 * k + (7 - c))) = bit (?st ! i ! k) c"
      if "c < 8" for c
    proof -
      from that \<open>k < ?w\<close> have "8 * k + (7 - c) < 8 * ?w" by simp
      with p(6) \<open>i < 128\<close>
      have "canvas_bit ?st i (8 * k + (7 - c)) =
          (8 * k + (7 - c) < w0 \<and> pattern_bit (pattern s') i (8 * k + (7 - c)))"
        by simp
      moreover have "(8 * k + (7 - c)) div 8 = k" "(8 * k + (7 - c)) mod 8 = 7 - c" by simp_all
      moreover have "7 - (7 - c) = c" using that by simp
      ultimately show ?thesis by (simp add: canvas_bit_def)
    qed
    then have "map (\<lambda>c. 8 * k + (7 - c) < w0 \<and> pattern_bit (pattern s') i (8 * k + (7 - c))) [0..<8]
        = map (bit (?st ! i ! k)) [0..<8]"
      by simp
    then show ?thesis by (simp only: byte_of_bits)
  qed
  have row: "map (?byte i) [0..<?w] = ?st ! i" if "i < 128" for i
  proof -
    from that p(4,5) have l: "length (?st ! i) = ?w" by simp
    have "map (?byte i) [0..<?w] = map (\<lambda>k. ?st ! i ! k) [0..<?w]"
      using byte [OF that] by simp
    also have "\<dots> = ?st ! i" using map_nth [of "?st ! i"] by (simp add: l)
    finally show ?thesis .
  qed
  have "untranspose w0 (pattern s') = map (\<lambda>i. ?st ! i) [0..<128]"
    unfolding untranspose_def using row by simp
  also have "\<dots> = ?st" using map_nth [of ?st] by (simp add: p(4))
  finally show ?thesis by (simp add: p(1))
qed

text \<open>
  Once the header is read and the rows are there, the canvas is the rows of the bitmap
  that follow the white space the header lines have consumed, \<open>(128 - height) div 2\<close>
  zero rows above them and \<open>128 - height - pad_top\<close> zero rows below; for a height above
  128 the canvas is the first 128 of these rows.
\<close>

lemma load_image_centering:
  assumes "read_header s0 = (Inr (Some (w0, h0)), s)" "load_image s0 = (r, s')" "r \<noteq> Inr 1"
  shows "(h0 \<le> 128 \<longrightarrow>
      image_stripes s' =
        replicate ((128 - h0) div 2) (replicate (((w0 + 7) mod 2 ^ 32) div 8) 0) @
        map (pbm_row (((w0 + 7) mod 2 ^ 32) div 8) (fin s)) [0..<h0] @
        replicate (128 - h0 - (128 - h0) div 2) (replicate (((w0 + 7) mod 2 ^ 32) div 8) 0)) \<and>
    (128 < h0 \<longrightarrow>
      image_stripes s' = map (pbm_row (((w0 + 7) mod 2 ^ 32) div 8) (fin s)) [0..<128])"
  using load_image_stripes [OF assms] by (simp add: min_def)

lemma read_rows_enough:
  assumes "0 < img_w" "(img_h - i) * img_w \<le> length (fin s)"
  shows "fst (read_rows i img_h pad_h img_w s) = Inr 0"
  using assms
proof (induction i img_h pad_h img_w s rule: read_rows.induct)
  case (1 i img_h pad_h img_w s)
  show ?case
  proof (cases "i < img_h")
    case False
    then show ?thesis by (simp add: read_rows.simps [of i])
  next
    case True
    then obtain d where d: "img_h - i = Suc d" "img_h - (i + 1) = d"
      by (cases "img_h - i") auto
    from "1.prems"(2) d have l: "img_w + d * img_w \<le> length (fin s)" by simp
    then have go: "\<not> (img_w = 0 \<or> length (take img_w (fin s)) < img_w)"
      using "1.prems"(1) by simp
    let ?s1 = "s\<lparr>image_stripes := (image_stripes s)
                     [i + pad_h := take img_w (fin s) @
                        drop (length (take img_w (fin s))) (image_stripes s ! (i + pad_h))],
                   fin := drop img_w (fin s)\<rparr>"
    have "(img_h - (i + 1)) * img_w \<le> length (fin ?s1)" using l d by simp
    from "1.IH" [OF True refl refl go "1.prems"(1) this] True go
    show ?thesis by (simp add: read_rows.simps [of i] Let_def)
  qed
qed

text \<open>
  The loader does not return 1 on a header followed, after the white space the header
  lines consume, by all the rows of the bitmap.
\<close>

lemma load_image_accepts:
  assumes "read_header s0 = (Inr (Some (w0, h0)), s)" "0 < w0" "w0 + 7 < 2 ^ 32"
    and "min h0 128 * ((w0 + 7) div 8) \<le> length (fin s)"
  shows "fst (load_image s0) \<noteq> Inr 1"
proof -
  let ?img_w = "((w0 + 7) mod 2 ^ 32) div 8"
  let ?s = "s\<lparr>image_w := w0, image_stripes := replicate 128 (replicate ?img_w 0)\<rparr>"
  have w: "?img_w = (w0 + 7) div 8" using assms(3) by simp
  have "0 < ?img_w" using assms(2) unfolding w by simp
  moreover have "(min h0 128 - 0) * ?img_w \<le> length (fin ?s)"
    using assms(4) unfolding w by simp
  ultimately have "fst (read_rows 0 (min h0 128) ((128 - min h0 128) div 2) ?img_w ?s) = Inr 0"
    by (rule read_rows_enough)
  with assms(1) show ?thesis by (rule load_image_not_1)
qed


lemma load_image_canvas:
  assumes "read_header s0 = (Inr (Some (w0, h0)), s)" "0 < w0" "w0 + 7 < 2 ^ 32"
    and "min h0 128 * ((w0 + 7) div 8) \<le> length (fin s)"
  shows "image_stripes (snd (load_image s0)) =
      replicate ((128 - min h0 128) div 2) (replicate ((w0 + 7) div 8) 0) @
      map (pbm_row ((w0 + 7) div 8) (fin s)) [0..<min h0 128] @
      replicate (128 - min h0 128 - (128 - min h0 128) div 2) (replicate ((w0 + 7) div 8) 0)"
proof -
  obtain r s' where l: "load_image s0 = (r, s')" by (cases "load_image s0")
  from load_image_accepts [OF assms] l have "r \<noteq> Inr 1" by simp
  from load_image_stripes [OF assms(1) l this] assms(3) show ?thesis by (simp add: l)
qed

text \<open>The bitmap of two rows: rows 63 and 64 of the canvas carry its two bytes.\<close>

lemma two_row_bitmap_canvas:
  "image_stripes (snd (load_image two_row_bitmap))
     = replicate 63 [0] @ [[0xA0], [0x50]] @ replicate 63 [0]"
proof -
  have f: "fin two_row_bitmap = [0x50, 0x34, 0x0A, 0x34, 0x20, 0x32, 0x0A, 0xA0, 0x50]"
    by (simp add: two_row_bitmap_def start_def)
  have h: "read_header two_row_bitmap
      = (Inr (Some (4, 2)), two_row_bitmap\<lparr>fin := [0xA0, 0x50]\<rparr>)"
    by (simp add: read_header_plain [OF f] fscanf_size_def scan_u_def is_space_def is_digit_def)
  have u: "[0..<2] = [0, Suc 0]" by (simp add: upt_rec)
  from load_image_canvas [OF h] show ?thesis by (simp add: pbm_row_def u)
qed

text \<open>
  A bitmap of width 8 and height 200, the file \<^verbatim>\<open>P4\n8 200\n\<close> followed by 200 row bytes
  the first of which is no white space: the canvas is its first 128 rows.
\<close>

lemma tall_bitmap_canvas:
  assumes "fin s0 = [0x50, 0x34, 0x0A, 0x38, 0x20, 0x32, 0x30, 0x30, 0x0A] @ b # bs"
    and "\<not> is_space b" "length bs = 199"
  shows "image_stripes (snd (load_image s0)) = map (\<lambda>k. [(b # bs) ! k]) [0..<128]"
proof -
  have f: "fin s0 = 0x50 # 0x34 # 0x0A # 0x38 # [0x20, 0x32, 0x30, 0x30, 0x0A] @ b # bs"
    using assms(1) by simp
  have h: "read_header s0 = (Inr (Some (8, 200)), s0\<lparr>fin := b # bs\<rparr>)"
    using assms(2)
    by (auto simp: read_header_plain [OF f] fscanf_size_def scan_u_def is_space_def is_digit_def)
  have "pbm_row 1 (b # bs) k = [(b # bs) ! k]" if "k < 128" for k
    using that assms(3) by (simp add: pbm_row_def take_Suc_conv_app_nth)
  with load_image_canvas [OF h] assms(3) show ?thesis by simp
qed

section \<open>Claims about the loader\<close>

text \<open>
  C7 at the bitmap of width 8 and height 1 whose row byte is 0A, the file \<^verbatim>\<open>P4\n8 1\n\<close>
  followed by that byte: the newline that ends the format of \<^verbatim>\<open>fscanf\<close> consumes the row
  byte with the newline of the header, the read of row 63 gets nothing, the loader returns 1
  and the canvas is left blank, where the claim has the byte in row 63 with 63 zero rows
  above and 64 below.
\<close>

theorem white_space_row_consumed:
  "fst (load_image newline_bitmap) = Inr 1 \<and>
   image_stripes (snd (load_image newline_bitmap)) = replicate 128 [0] \<and>
   fin (snd (load_image newline_bitmap)) = []"
proof -
  have f: "fin newline_bitmap = [0x50, 0x34, 0x0A, 0x38, 0x20, 0x31, 0x0A, 0x0A]"
    by (simp add: newline_bitmap_def start_def)
  have h: "read_header newline_bitmap = (Inr (Some (8, 1)), newline_bitmap\<lparr>fin := []\<rparr>)"
    by (simp add: read_header_plain [OF f] fscanf_size_def scan_u_def is_space_def is_digit_def)
  have u: "(replicate 128 [0 :: u8])[63 := [0]] = replicate 128 [0]"
    by (simp add: list_eq_iff_nth_eq nth_list_update)
  show ?thesis
    unfolding load_image_unfold [OF h]
    by (simp add: read_rows.simps [of 0] u)
qed

text \<open>
  C6 at a bitmap of width 4 and height 1 whose row byte is F8, the file \<^verbatim>\<open>P4\n4 1\n\<close>
  followed by that byte: the bit of column 4, one of the four padding bits of the row, is
  stored at index \<open>4 * 16 + 63 div 8 = 71\<close> of a pattern of 64 bytes.
\<close>

theorem padding_bits_overflow:
  "fst (load_image padded_bitmap) = Inl (Out_of_bounds 71) \<and>
   pattern_size (snd (load_image padded_bitmap)) = 64"
proof -
  have f: "fin padded_bitmap = [0x50, 0x34, 0x0A, 0x34, 0x20, 0x31, 0x0A, 0xF8]"
    by (simp add: padded_bitmap_def start_def)
  have h: "read_header padded_bitmap = (Inr (Some (4, 1)), padded_bitmap\<lparr>fin := [0xF8]\<rparr>)"
    by (simp add: read_header_plain [OF f] fscanf_size_def scan_u_def is_space_def is_digit_def)
  let ?s0 = "padded_bitmap\<lparr>fin := [0xF8], image_w := 4,
    image_stripes := replicate 128 (replicate 1 0)\<rparr>"
  let ?s1 = "?s0\<lparr>image_stripes := (replicate 128 [0])[63 := [0xF8]], fin := []\<rparr>"
  have rr: "read_rows 0 1 63 1 ?s0 = (Inr 0, ?s1)"
    by (simp add: read_rows.simps [of 0] read_rows.simps [of "Suc 0"] padded_bitmap_def start_def)
  have z: "\<forall>j. 0 \<le> j \<and> j < 63 \<longrightarrow> (\<forall>m<1. (replicate 128 [0 :: u8])[63 := [0xF8]] ! j ! m = 0)"
    by simp
  have "transpose_rows 0 ((replicate 128 [0])[63 := [0xF8]]) 1 (replicate 64 0)
      = transpose_rows 63 ((replicate 128 [0])[63 := [0xF8]]) 1 (replicate 64 0)"
    by (rule transpose_rows_skip [OF _ _ z]) (simp_all add: IMAGE_ROWS_def)
  also have "\<dots> = Inl (Out_of_bounds 71)"
    by (simp add: transpose_rows.simps [of 63] transpose_row.simps [of 63 _ 0]
        transpose_bits.simps IMAGE_ROWS_def)
  finally have t: "transpose_rows 0 ((replicate 128 [0])[63 := [0xF8]]) 1 (replicate 64 0)
      = Inl (Out_of_bounds 71)" .
  show ?thesis
    unfolding load_image_unfold [OF h]
    using rr t by simp
qed

end
